theory Spec2Isabelle
  imports Main
begin

section \<open>JavaScript strings\<close>

text \<open>
  The markdown escaping engine of \<^verbatim>\<open>src/util/Util.js\<close> works on JavaScript strings with
  \<^verbatim>\<open>split\<close>, \<^verbatim>\<open>join\<close>, \<^verbatim>\<open>replaceAll\<close> and regular expressions. A string is modelled as a
  \<^typ>\<open>string\<close> (a list of \<^typ>\<open>char\<close>): one \<^typ>\<open>char\<close> per code unit. Code units above
  \<^verbatim>\<open>0xFF\<close> are outside the model; the only ones the engine would treat specially are the
  line separators U+2028 and U+2029 (for \<^verbatim>\<open>.\<close> and for \<^verbatim>\<open>^\<close> under the \<^verbatim>\<open>m\<close> flag).
\<close>

abbreviation BS :: char where
  "BS \<equiv> CHR 0x5C"

abbreviation LF :: char where
  "LF \<equiv> CHR 0x0A"

abbreviation CR :: char where
  "CR \<equiv> CHR 0x0D"

definition lineTerminator :: "char \<Rightarrow> bool" where
  "lineTerminator x = (x = LF \<or> x = CR)"

definition isDigit :: "char \<Rightarrow> bool" where
  "isDigit x = (x \<in> set ''0123456789'')"

definition digitValue :: "char \<Rightarrow> nat" where
  "digitValue x = of_char x - 48"

text \<open>\<^verbatim>\<open>Array.prototype.join(sep)\<close>.\<close>

fun join :: "string \<Rightarrow> string list \<Rightarrow> string" where
  "join sep [] = []"
| "join sep [x] = x"
| "join sep (x # y # ys) = x @ sep @ join sep (y # ys)"

text \<open>
  \<^verbatim>\<open>String.prototype.split(sep)\<close> for a string separator: the text is cut at every
  occurrence of \<^verbatim>\<open>sep\<close>, found from left to right without overlap. \<^verbatim>\<open>piece\<close> holds the
  characters read since the last cut. The engine only calls it with a separator of three
  characters; an empty separator (which JavaScript treats differently) is read here as
  "never found".
\<close>

function splitFrom :: "string \<Rightarrow> string \<Rightarrow> string \<Rightarrow> string list" where
  "splitFrom sep piece rest =
     (if sep \<noteq> [] \<and> take (length sep) rest = sep
      then piece # splitFrom sep [] (drop (length sep) rest)
      else (case rest of
              [] \<Rightarrow> [piece]
            | x # xs \<Rightarrow> splitFrom sep (piece @ [x]) xs))"
  by pat_completeness auto
termination
proof (relation "measure (\<lambda>(sep, piece, rest). length rest)")
  show "wf (measure (\<lambda>(sep, piece, rest). length rest))"
    by simp
next
  fix sep piece rest :: string
  assume a: "sep \<noteq> [] \<and> take (length sep) rest = sep"
  then have "length sep \<le> length rest"
    by (metis length_take min.cobounded1)
  moreover from a have "0 < length sep"
    by simp
  ultimately have "length rest - length sep < length rest"
    by arith
  then show "((sep, [], drop (length sep) rest), (sep, piece, rest))
      \<in> measure (\<lambda>(sep, piece, rest). length rest)"
    by simp
next
  fix sep piece rest :: string and x xs
  assume "rest = x # xs"
  then show "((sep, piece @ [x], xs), (sep, piece, rest))
      \<in> measure (\<lambda>(sep, piece, rest). length rest)"
    by simp
qed

declare splitFrom.simps [simp del]

definition split :: "string \<Rightarrow> string \<Rightarrow> string list" where
  "split sep text = splitFrom sep [] text"

text \<open>
  \<^verbatim>\<open>String.prototype.replaceAll(pat, rep)\<close> for a string pattern: every occurrence of
  \<^verbatim>\<open>pat\<close>, from left to right without overlap, is replaced by \<^verbatim>\<open>rep\<close>. None of the
  replacement strings the engine passes contains a \<^verbatim>\<open>$\<close>, so they stand for themselves.
\<close>

function replaceAll :: "string \<Rightarrow> string \<Rightarrow> string \<Rightarrow> string" where
  "replaceAll pat rep text =
     (if pat \<noteq> [] \<and> take (length pat) text = pat
      then rep @ replaceAll pat rep (drop (length pat) text)
      else (case text of
              [] \<Rightarrow> []
            | x # xs \<Rightarrow> x # replaceAll pat rep xs))"
  by pat_completeness auto
termination
proof (relation "measure (\<lambda>(pat, rep, text). length text)")
  show "wf (measure (\<lambda>(pat, rep, text). length text))"
    by simp
next
  fix pat rep t :: string
  assume a: "pat \<noteq> [] \<and> take (length pat) t = pat"
  then have "length pat \<le> length t"
    by (metis length_take min.cobounded1)
  moreover from a have "0 < length pat"
    by simp
  ultimately have "length t - length pat < length t"
    by arith
  then show "((pat, rep, drop (length pat) t), (pat, rep, t))
      \<in> measure (\<lambda>(pat, rep, text). length text)"
    by simp
next
  fix pat rep t :: string and x xs
  assume "t = x # xs"
  then show "((pat, rep, xs), (pat, rep, t)) \<in> measure (\<lambda>(pat, rep, text). length text)"
    by simp
qed

declare replaceAll.simps [simp del]

section \<open>Regular expressions\<close>

text \<open>
  The fragment of ECMAScript regular expressions that the engine's patterns use, with the
  backtracking semantics of the language: a matcher returns every way to match, in the
  order in which the backtracking search would try them, so the head of the list is the
  match that \<^verbatim>\<open>exec\<close> reports. Quantifiers are greedy.
\<close>

datatype regex =
    Chr char                      \<comment> \<open>a literal character\<close>
  | Cls "char list"               \<comment> \<open>\<^verbatim>\<open>[abc]\<close>\<close>
  | NCls "char list"              \<comment> \<open>\<^verbatim>\<open>[^abc]\<close>\<close>
  | Dot                           \<comment> \<open>\<^verbatim>\<open>.\<close>: any character but a line terminator\<close>
  | Digit                         \<comment> \<open>\<^verbatim>\<open>\d\<close>\<close>
  | Bol                           \<comment> \<open>\<^verbatim>\<open>^\<close>\<close>
  | Eol                           \<comment> \<open>\<^verbatim>\<open>$\<close>\<close>
  | Seq regex regex
  | Alt regex regex
  | Rep nat "nat option" regex    \<comment> \<open>\<^verbatim>\<open>r{lo,hi}\<close>, \<^verbatim>\<open>None\<close> for no upper bound\<close>
  | Grp nat regex                 \<comment> \<open>capturing group number \<^verbatim>\<open>k\<close>\<close>
  | Ahead regex                   \<comment> \<open>\<^verbatim>\<open>(?=r)\<close>\<close>
  | Behind regex                  \<comment> \<open>\<^verbatim>\<open>(?<=r)\<close>\<close>

abbreviation Opt :: "regex \<Rightarrow> regex" where
  "Opt r \<equiv> Rep 0 (Some 1) r"

abbreviation Star :: "regex \<Rightarrow> regex" where
  "Star r \<equiv> Rep 0 None r"

abbreviation Plus :: "regex \<Rightarrow> regex" where
  "Plus r \<equiv> Rep 1 None r"

text \<open>
  A match state is a position in the input, kept as the characters before it (nearest
  first) and the characters from it on, with the captures made so far (the latest binding
  of a group first).
\<close>

type_synonym captures = "(nat \<times> string) list"

type_synonym mstate = "string \<times> string \<times> captures"

primrec groups :: "regex \<Rightarrow> nat list" where
  "groups (Chr a) = []"
| "groups (Cls as) = []"
| "groups (NCls as) = []"
| "groups Dot = []"
| "groups Digit = []"
| "groups Bol = []"
| "groups Eol = []"
| "groups (Seq r1 r2) = groups r1 @ groups r2"
| "groups (Alt r1 r2) = groups r1 @ groups r2"
| "groups (Rep lo hi r) = groups r"
| "groups (Grp k r) = k # groups r"
| "groups (Ahead r) = groups r"
| "groups (Behind r) = groups r"

fun clear :: "nat list \<Rightarrow> mstate \<Rightarrow> mstate" where
  "clear ks (pre, rest, c) = (pre, rest, filter (\<lambda>(k, v). k \<notin> set ks) c)"

text \<open>One character, read forwards or (inside a lookbehind) backwards.\<close>

fun step :: "bool \<Rightarrow> (char \<Rightarrow> bool) \<Rightarrow> mstate \<Rightarrow> mstate list" where
  "step True P (pre, x # rest, c) = (if P x then [(x # pre, rest, c)] else [])"
| "step True P (pre, [], c) = []"
| "step False P (x # pre, rest, c) = (if P x then [(pre, x # rest, c)] else [])"
| "step False P ([], rest, c) = []"

fun atBol :: "bool \<Rightarrow> mstate \<Rightarrow> bool" where
  "atBol ml ([], rest, c) = True"
| "atBol ml (x # pre, rest, c) = (ml \<and> lineTerminator x)"

fun atEol :: "bool \<Rightarrow> mstate \<Rightarrow> bool" where
  "atEol ml (pre, [], c) = True"
| "atEol ml (pre, x # rest, c) = (ml \<and> lineTerminator x)"

fun remaining :: "bool \<Rightarrow> mstate \<Rightarrow> nat" where
  "remaining fwd (pre, rest, c) = (if fwd then length rest else length pre)"

text \<open>
  The text a group captured: what lies between the state before it and the state after it.
\<close>

fun capture :: "bool \<Rightarrow> nat \<Rightarrow> mstate \<Rightarrow> mstate \<Rightarrow> mstate" where
  "capture fwd k (pre, rest, c) (pre', rest', c') =
     (pre', rest',
      (k, if fwd then rev (take (length pre' - length pre) pre')
          else take (length rest' - length rest) rest') # c')"

text \<open>
  The quantifier (RepeatMatcher of the language specification): once \<^verbatim>\<open>hi\<close> iterations
  are used up it stops; otherwise it first tries one more iteration and, when none is
  required any more, falls back to stopping here. An iteration that is not required and
  matches the empty string is rejected.
\<close>

function rep :: "bool \<Rightarrow> (mstate \<Rightarrow> mstate list) \<Rightarrow> nat \<Rightarrow> nat option \<Rightarrow> mstate \<Rightarrow> mstate list" where
  "rep fwd m lo hi st =
     (if hi = Some 0 then [st]
      else concat (map (\<lambda>st'.
               if remaining fwd st' < remaining fwd st
                  \<or> (0 < lo \<and> remaining fwd st' = remaining fwd st)
               then rep fwd m (lo - 1) (map_option (\<lambda>h. h - 1) hi) st'
               else []) (m st))
           @ (if lo = 0 then [st] else []))"
  by pat_completeness auto
termination
  by (relation "measures [\<lambda>(fwd, m, lo, hi, st). remaining fwd st, \<lambda>(fwd, m, lo, hi, st). lo]")
     auto

declare rep.simps [simp del]

primrec mt :: "bool \<Rightarrow> regex \<Rightarrow> bool \<Rightarrow> mstate \<Rightarrow> mstate list" where
  "mt ml (Chr a) fwd st = step fwd (\<lambda>x. x = a) st"
| "mt ml (Cls as) fwd st = step fwd (\<lambda>x. x \<in> set as) st"
| "mt ml (NCls as) fwd st = step fwd (\<lambda>x. x \<notin> set as) st"
| "mt ml Dot fwd st = step fwd (\<lambda>x. \<not> lineTerminator x) st"
| "mt ml Digit fwd st = step fwd isDigit st"
| "mt ml Bol fwd st = (if atBol ml st then [st] else [])"
| "mt ml Eol fwd st = (if atEol ml st then [st] else [])"
| "mt ml (Seq r1 r2) fwd st =
     (if fwd then concat (map (mt ml r2 fwd) (mt ml r1 fwd st))
      else concat (map (mt ml r1 fwd) (mt ml r2 fwd st)))"
| "mt ml (Alt r1 r2) fwd st = mt ml r1 fwd st @ mt ml r2 fwd st"
| "mt ml (Rep lo hi r) fwd st = rep fwd (\<lambda>s. mt ml r fwd (clear (groups r) s)) lo hi st"
| "mt ml (Grp k r) fwd st = map (capture fwd k st) (mt ml r fwd st)"
| "mt ml (Ahead r) fwd st =
     (case mt ml r True st of
        [] \<Rightarrow> []
      | (pre', rest', c') # others \<Rightarrow> [(fst st, fst (snd st), c')])"
| "mt ml (Behind r) fwd st =
     (case mt ml r False st of
        [] \<Rightarrow> []
      | (pre', rest', c') # others \<Rightarrow> [(fst st, fst (snd st), c')])"

text \<open>The match that starts exactly at the given position, if there is one.\<close>

definition matchAt :: "bool \<Rightarrow> regex \<Rightarrow> string \<Rightarrow> string \<Rightarrow> mstate option" where
  "matchAt ml r pre rest =
     (case mt ml r True (pre, rest, []) of
        [] \<Rightarrow> None
      | st # others \<Rightarrow> Some st)"

text \<open>
  \<^verbatim>\<open>String.prototype.replace\<close> with a global regular expression (and \<^verbatim>\<open>replaceAll\<close>, which
  does the same for one): the matches are found from left to right, each search starting
  where the last match ended (one character further after an empty match), and each is
  replaced by what the replacer returns for it. The replacer gets the matched text and
  the captures; it may keep a counter between its calls, which is threaded through as
  \<^verbatim>\<open>s\<close>. Characters that belong to no match are copied.
\<close>

function replaceFrom ::
  "bool \<Rightarrow> regex \<Rightarrow> ('s \<Rightarrow> string \<Rightarrow> captures \<Rightarrow> string \<times> 's) \<Rightarrow> 's \<Rightarrow> string \<Rightarrow> string \<Rightarrow> string"
where
  "replaceFrom ml r f s pre rest =
     (case matchAt ml r pre rest of
        Some (pre', rest', c) \<Rightarrow>
          if length rest' < length rest
          then (case f s (take (length rest - length rest') rest) c of
                  (out, s') \<Rightarrow> out @ replaceFrom ml r f s' pre' rest')
          else (case f s [] c of
                  (out, s') \<Rightarrow>
                    out @ (case rest of
                             [] \<Rightarrow> []
                           | x # xs \<Rightarrow> x # replaceFrom ml r f s' (x # pre) xs))
      | None \<Rightarrow>
          (case rest of
             [] \<Rightarrow> []
           | x # xs \<Rightarrow> x # replaceFrom ml r f s (x # pre) xs))"
  by pat_completeness auto
termination
  by (relation "measure (\<lambda>(ml, r, f, s, pre, rest). length rest)") auto

declare replaceFrom.simps [simp del]

definition replace ::
  "bool \<Rightarrow> regex \<Rightarrow> ('s \<Rightarrow> string \<Rightarrow> captures \<Rightarrow> string \<times> 's) \<Rightarrow> 's \<Rightarrow> string \<Rightarrow> string"
where
  "replace ml r f s text = replaceFrom ml r f s [] text"

text \<open>
  A replacement string (GetSubstitution of the language specification): \<^verbatim>\<open>$$\<close> is a
  dollar sign, \<^verbatim>\<open>$&\<close> the matched text, \<^verbatim>\<open>$n\<close> the text of group \<^verbatim>\<open>n\<close> (empty when the
  group took no part in the match) for a digit \<^verbatim>\<open>n\<close> from 1 up to the number of groups
  \<^verbatim>\<open>m\<close> of the pattern. The engine's replacement strings use nothing else.
\<close>

fun getSubstitution :: "nat \<Rightarrow> string \<Rightarrow> captures \<Rightarrow> string \<Rightarrow> string" where
  "getSubstitution m matched c [] = []"
| "getSubstitution m matched c [x] = [x]"
| "getSubstitution m matched c (x # y # t) =
     (if x = CHR ''$'' \<and> y = CHR ''$'' then CHR ''$'' # getSubstitution m matched c t
      else if x = CHR ''$'' \<and> y = CHR ''&'' then matched @ getSubstitution m matched c t
      else if x = CHR ''$'' \<and> isDigit y \<and> 1 \<le> digitValue y \<and> digitValue y \<le> m
      then (case map_of c (digitValue y) of None \<Rightarrow> [] | Some v \<Rightarrow> v)
           @ getSubstitution m matched c t
      else x # getSubstitution m matched c (y # t))"

definition replaceTemplate :: "bool \<Rightarrow> regex \<Rightarrow> string \<Rightarrow> string \<Rightarrow> string" where
  "replaceTemplate ml r template text =
     replace ml r (\<lambda>s matched c. (getSubstitution (length (groups r)) matched c template, s)) () text"

text \<open>
  \<^verbatim>\<open>String.prototype.split\<close> with a regular expression that has no capturing group: at every
  position before the end of the text a match is tried; a non-empty match ends the current
  piece, an empty one ends it only if the piece is not empty. The text after the last
  match is the last piece. The empty text gives no piece if the pattern matches it and the
  one empty piece otherwise.
\<close>

function splitRegexFrom :: "bool \<Rightarrow> regex \<Rightarrow> string \<Rightarrow> string \<Rightarrow> string \<Rightarrow> string list" where
  "splitRegexFrom ml r pre piece rest =
     (case rest of
        [] \<Rightarrow> [piece]
      | x # xs \<Rightarrow>
          (case matchAt ml r pre rest of
             Some (pre', rest', c) \<Rightarrow>
               if length rest' < length rest
               then piece # splitRegexFrom ml r pre' [] rest'
               else if piece = []
               then splitRegexFrom ml r (x # pre) [x] xs
               else piece # splitRegexFrom ml r (x # pre) [x] xs
           | None \<Rightarrow> splitRegexFrom ml r (x # pre) (piece @ [x]) xs))"
  by pat_completeness auto
termination
  by (relation "measure (\<lambda>(ml, r, pre, piece, rest). length rest)") auto

declare splitRegexFrom.simps [simp del]

definition splitRegex :: "bool \<Rightarrow> regex \<Rightarrow> string \<Rightarrow> string list" where
  "splitRegex ml r text =
     (if text = [] then (case matchAt ml r [] [] of None \<Rightarrow> [[]] | Some st \<Rightarrow> [])
      else splitRegexFrom ml r [] [] text)"

section \<open>The escapers\<close>

text \<open>\<^verbatim>\<open>escapeCodeBlock\<close>: \<^verbatim>\<open>text.replaceAll('```', '\\`\\`\\`')\<close>.\<close>

definition escapeCodeBlock :: "string \<Rightarrow> string" where
  "escapeCodeBlock text = replaceAll ''```'' (BS # ''`'' @ BS # ''`'' @ BS # ''`'') text"

text \<open>
  \<^verbatim>\<open>escapeInlineCode\<close>: the pattern is \<^verbatim>\<open>/(?<=^|[^`])``?(?=[^`]|$)/g\<close>, and a match of two
  characters is replaced by \<^verbatim>\<open>'\\`\\`'\<close>, any other by \<^verbatim>\<open>'\\`'\<close>.
\<close>

definition inlineCodeRegex :: regex where
  "inlineCodeRegex =
     Seq (Behind (Alt Bol (NCls ''`'')))
       (Seq (Chr (CHR ''`''))
         (Seq (Opt (Chr (CHR ''`'')))
           (Ahead (Alt (NCls ''`'') Eol))))"

definition escapeInlineCode :: "string \<Rightarrow> string" where
  "escapeInlineCode text =
     replace False inlineCodeRegex
       (\<lambda>s matched c. (if length matched = 2 then BS # ''`'' @ BS # ''`'' else BS # ''`'', s))
       () text"

text \<open>
  \<^verbatim>\<open>escapeItalic\<close>: two passes, the first with \<^verbatim>\<open>/(?<=^|[^*])\*([^*]|\*\*|$)/g\<close>, the second
  with \<^verbatim>\<open>/(?<=^|[^_])_([^_]|__|$)/g\<close> on the result of the first. The counter \<^verbatim>\<open>i\<close> starts
  at 0 in each pass and is incremented before it is tested (\<^verbatim>\<open>++i % 2\<close>). The replacer's
  \<^verbatim>\<open>match\<close> is the text of group 1.
\<close>

definition italicRegex :: "char \<Rightarrow> regex" where
  "italicRegex a =
     Seq (Behind (Alt Bol (NCls [a])))
       (Seq (Chr a)
         (Grp 1 (Alt (NCls [a]) (Alt (Seq (Chr a) (Chr a)) Eol))))"

definition group :: "captures \<Rightarrow> nat \<Rightarrow> string" where
  "group c k = (case map_of c k of None \<Rightarrow> [] | Some v \<Rightarrow> v)"

definition italicReplacer :: "char \<Rightarrow> nat \<Rightarrow> string \<Rightarrow> captures \<Rightarrow> string \<times> nat" where
  "italicReplacer a i matched c =
     (let match = group c 1 in
      if match = [a, a]
      then (if (i + 1) mod 2 \<noteq> 0 then BS # a # match else match @ [BS, a], i + 1)
      else (BS # a # match, i))"

definition escapeItalic :: "string \<Rightarrow> string" where
  "escapeItalic text =
     (let text = replace False (italicRegex (CHR ''*'')) (italicReplacer (CHR ''*'')) 0 text
      in replace False (italicRegex (CHR ''_'')) (italicReplacer (CHR ''_'')) 0 text)"

text \<open>
  \<^verbatim>\<open>escapeBold\<close> with \<^verbatim>\<open>/\*\*(\*)?/g\<close> and \<^verbatim>\<open>escapeUnderline\<close> with \<^verbatim>\<open>/__(_)?/g\<close>: the
  replacer's \<^verbatim>\<open>match\<close> is the text of group 1, which is undefined (and so false in the
  test \<^verbatim>\<open>if (match)\<close>) when the optional third character is absent.
\<close>

definition boldRegex :: "char \<Rightarrow> regex" where
  "boldRegex a = Seq (Chr a) (Seq (Chr a) (Opt (Grp 1 (Chr a))))"

definition boldReplacer :: "char \<Rightarrow> nat \<Rightarrow> string \<Rightarrow> captures \<Rightarrow> string \<times> nat" where
  "boldReplacer a i matched c =
     (case map_of c 1 of
        Some match \<Rightarrow>
          if match \<noteq> []
          then (if (i + 1) mod 2 \<noteq> 0 then match @ [BS, a, BS, a] else [BS, a, BS, a] @ match, i + 1)
          else ([BS, a, BS, a], i)
      | None \<Rightarrow> ([BS, a, BS, a], i))"

definition escapeBold :: "string \<Rightarrow> string" where
  "escapeBold text = replace False (boldRegex (CHR ''*'')) (boldReplacer (CHR ''*'')) 0 text"

definition escapeUnderline :: "string \<Rightarrow> string" where
  "escapeUnderline text = replace False (boldRegex (CHR ''_'')) (boldReplacer (CHR ''_'')) 0 text"

text \<open>The literal replacements.\<close>

definition escapeStrikethrough :: "string \<Rightarrow> string" where
  "escapeStrikethrough text = replaceAll ''~~'' (BS # ''~'' @ BS # ''~'') text"

definition escapeSpoiler :: "string \<Rightarrow> string" where
  "escapeSpoiler text = replaceAll ''||'' (BS # ''|'' @ BS # ''|'') text"

definition escapeEscape :: "string \<Rightarrow> string" where
  "escapeEscape text = replaceAll [BS] [BS, BS] text"

text \<open>
  The line-anchored replacements, all with the flags \<^verbatim>\<open>gm\<close>:
  \<^verbatim>\<open>escapeHeading\<close> is \<^verbatim>\<open>text.replaceAll(/^( {0,2}[*-] +)?(#{1,3} )/gm, '$1\\$2')\<close>,
  \<^verbatim>\<open>escapeBulletedList\<close> is \<^verbatim>\<open>text.replaceAll(/^( *)[*-]( +)/gm, '$1\\-$2')\<close>,
  \<^verbatim>\<open>escapeNumberedList\<close> is \<^verbatim>\<open>text.replaceAll(/^( *\d+)\./gm, '$1\\.')\<close> and
  \<^verbatim>\<open>escapeMaskedLink\<close> is \<^verbatim>\<open>text.replaceAll(/\[.+\]\(.+\)/gm, '\\$&')\<close>.
\<close>

definition headingRegex :: regex where
  "headingRegex =
     Seq Bol
       (Seq (Opt (Grp 1 (Seq (Rep 0 (Some 2) (Chr (CHR '' ''))) (Seq (Cls ''*-'') (Plus (Chr (CHR '' '')))))))
         (Grp 2 (Seq (Rep 1 (Some 3) (Chr (CHR ''#''))) (Chr (CHR '' '')))))"

definition escapeHeading :: "string \<Rightarrow> string" where
  "escapeHeading text = replaceTemplate True headingRegex (''$1'' @ BS # ''$2'') text"

definition bulletedListRegex :: regex where
  "bulletedListRegex =
     Seq Bol
       (Seq (Grp 1 (Star (Chr (CHR '' ''))))
         (Seq (Cls ''*-'') (Grp 2 (Plus (Chr (CHR '' ''))))))"

definition escapeBulletedList :: "string \<Rightarrow> string" where
  "escapeBulletedList text = replaceTemplate True bulletedListRegex (''$1'' @ BS # ''-$2'') text"

definition numberedListRegex :: regex where
  "numberedListRegex =
     Seq Bol (Seq (Grp 1 (Seq (Star (Chr (CHR '' ''))) (Plus Digit))) (Chr (CHR ''.'')))"

definition escapeNumberedList :: "string \<Rightarrow> string" where
  "escapeNumberedList text = replaceTemplate True numberedListRegex (''$1'' @ BS # ''.'') text"

definition maskedLinkRegex :: regex where
  "maskedLinkRegex =
     Seq (Chr (CHR ''[''))
       (Seq (Plus Dot)
         (Seq (Chr (CHR '']''))
           (Seq (Chr (CHR ''(''))
             (Seq (Plus Dot) (Chr (CHR '')''))))))"

definition escapeMaskedLink :: "string \<Rightarrow> string" where
  "escapeMaskedLink text = replaceTemplate True maskedLinkRegex (BS # ''$&'') text"

section \<open>The composer\<close>

text \<open>
  The options of \<^verbatim>\<open>escapeMarkdown\<close>, after the defaults of the parameter list have been
  filled in for the properties the caller left out.
\<close>

record escapeMarkdownOptions =
  codeBlock :: bool
  inlineCode :: bool
  bold :: bool
  italic :: bool
  underline :: bool
  strikethrough :: bool
  spoiler :: bool
  codeBlockContent :: bool
  inlineCodeContent :: bool
  escape :: bool
  heading :: bool
  bulletedList :: bool
  numberedList :: bool
  maskedLink :: bool

definition defaults :: escapeMarkdownOptions where
  "defaults =
     \<lparr>codeBlock = True, inlineCode = True, bold = True, italic = True, underline = True,
      strikethrough = True, spoiler = True, codeBlockContent = True, inlineCodeContent = True,
      escape = True, heading = False, bulletedList = False, numberedList = False,
      maskedLink = False\<rparr>"

text \<open>
  One statement \<^verbatim>\<open>if (flag) text = Util.escapeX(text);\<close> of the composer: the text after
  it, from the text before it.
\<close>

definition applyIf :: "bool \<Rightarrow> (string \<Rightarrow> string) \<Rightarrow> string \<Rightarrow> string" where
  "applyIf flag escaper text = (if flag then escaper text else text)"

text \<open>The pattern of the inline-code branch: \<^verbatim>\<open>/(?<=^|[^`])`(?=[^`]|$)/g\<close>.\<close>

definition inlineSplitRegex :: regex where
  "inlineSplitRegex =
     Seq (Behind (Alt Bol (NCls ''`'')))
       (Seq (Chr (CHR ''`'')) (Ahead (Alt (NCls ''`'') Eol)))"

text \<open>
  The object a recursive call of \<^verbatim>\<open>escapeMarkdown\<close> passes: the properties it lists have the
  caller's values, and the ones it leaves out take their defaults in the callee. The call
  in the code-block branch lists \<^verbatim>\<open>inlineCode\<close>, \<^verbatim>\<open>bold\<close>, \<^verbatim>\<open>italic\<close>, \<^verbatim>\<open>underline\<close>,
  \<^verbatim>\<open>strikethrough\<close>, \<^verbatim>\<open>spoiler\<close>, \<^verbatim>\<open>inlineCodeContent\<close>, \<^verbatim>\<open>escape\<close>, \<^verbatim>\<open>heading\<close>,
  \<^verbatim>\<open>bulletedList\<close>, \<^verbatim>\<open>numberedList\<close> and \<^verbatim>\<open>maskedLink\<close>; the call in the inline-code branch
  lists \<^verbatim>\<open>codeBlock\<close>, \<^verbatim>\<open>bold\<close>, \<^verbatim>\<open>italic\<close>, \<^verbatim>\<open>underline\<close>, \<^verbatim>\<open>strikethrough\<close>, \<^verbatim>\<open>spoiler\<close>,
  \<^verbatim>\<open>escape\<close>, \<^verbatim>\<open>heading\<close>, \<^verbatim>\<open>bulletedList\<close>, \<^verbatim>\<open>numberedList\<close> and \<^verbatim>\<open>maskedLink\<close>.
\<close>

definition codeBlockBranchOptions :: "escapeMarkdownOptions \<Rightarrow> escapeMarkdownOptions" where
  "codeBlockBranchOptions opts =
     defaults\<lparr>inlineCode := inlineCode opts, bold := bold opts, italic := italic opts,
       underline := underline opts, strikethrough := strikethrough opts,
       spoiler := spoiler opts, inlineCodeContent := inlineCodeContent opts,
       escape := escape opts, heading := heading opts, bulletedList := bulletedList opts,
       numberedList := numberedList opts, maskedLink := maskedLink opts\<rparr>"

definition inlineCodeBranchOptions :: "escapeMarkdownOptions \<Rightarrow> escapeMarkdownOptions" where
  "inlineCodeBranchOptions opts =
     defaults\<lparr>codeBlock := codeBlock opts, bold := bold opts, italic := italic opts,
       underline := underline opts, strikethrough := strikethrough opts,
       spoiler := spoiler opts, escape := escape opts, heading := heading opts,
       bulletedList := bulletedList opts, numberedList := numberedList opts,
       maskedLink := maskedLink opts\<rparr>"

text \<open>
  \<^verbatim>\<open>escapeMarkdown\<close>: the code-block branch, the inline-code branch, and the sequence of
  escapers.
\<close>

function escapeMarkdown :: "string \<Rightarrow> escapeMarkdownOptions \<Rightarrow> string" where
  "escapeMarkdown text opts =
     (if \<not> codeBlockContent opts then
        (let array = split ''```'' text in
         join (if codeBlock opts then BS # ''`'' @ BS # ''`'' @ BS # ''`'' else ''```'')
           (map (\<lambda>(index, subString).
                   if index mod 2 \<noteq> 0 \<and> index \<noteq> length array - 1 then subString
                   else escapeMarkdown subString (codeBlockBranchOptions opts))
              (enumerate 0 array)))
      else if \<not> inlineCodeContent opts then
        (let array = splitRegex False inlineSplitRegex text in
         join (if inlineCode opts then BS # ''`'' else ''`'')
           (map (\<lambda>(index, subString).
                   if index mod 2 \<noteq> 0 \<and> index \<noteq> length array - 1 then subString
                   else escapeMarkdown subString (inlineCodeBranchOptions opts))
              (enumerate 0 array)))
      else
        (let t1 = applyIf (escape opts) escapeEscape text;
             t2 = applyIf (inlineCode opts) escapeInlineCode t1;
             t3 = applyIf (codeBlock opts) escapeCodeBlock t2;
             t4 = applyIf (italic opts) escapeItalic t3;
             t5 = applyIf (bold opts) escapeBold t4;
             t6 = applyIf (underline opts) escapeUnderline t5;
             t7 = applyIf (strikethrough opts) escapeStrikethrough t6;
             t8 = applyIf (spoiler opts) escapeSpoiler t7;
             t9 = applyIf (heading opts) escapeHeading t8;
             t10 = applyIf (bulletedList opts) escapeBulletedList t9;
             t11 = applyIf (numberedList opts) escapeNumberedList t10;
             t12 = applyIf (maskedLink opts) escapeMaskedLink t11
         in t12))"
  by pat_completeness auto
termination
  by (relation "measure (\<lambda>(text, opts).
        if \<not> codeBlockContent opts then 2 else if \<not> inlineCodeContent opts then 1 else 0)")
     (auto simp: defaults_def codeBlockBranchOptions_def inlineCodeBranchOptions_def)

declare escapeMarkdown.simps [simp del]

section \<open>The escapers as the claims describe them\<close>

text \<open>
  The claims describe the toggle-pair escapers as scans of the text from left to right.
  These are those descriptions, written as functions; the theorems below compare them
  with the escapers above, which are built from the regular expressions of the source.

  \<^verbatim>\<open>boldScan a i\<close> follows claim C3 for the marker \<^verbatim>\<open>a\<close> when \<^verbatim>\<open>i\<close> triples have been seen:
  a doubled marker followed by a third one counts; the third marker is written
  unescaped and the pair with two backslashes, the third marker first on an odd count
  and last on an even count. A doubled marker alone becomes the pair with two
  backslashes and does not count. Every other character is copied.
\<close>

fun boldScan :: "char \<Rightarrow> nat \<Rightarrow> string \<Rightarrow> string" where
  "boldScan a i (x # y # z # r) =
     (if x = a \<and> y = a \<and> z = a
      then (if odd (i + 1) then [a, BS, a, BS, a] else [BS, a, BS, a, a]) @ boldScan a (i + 1) r
      else if x = a \<and> y = a then [BS, a, BS, a] @ boldScan a i (z # r)
      else x # boldScan a i (y # z # r))"
| "boldScan a i [x, y] = (if x = a \<and> y = a then [BS, a, BS, a] else [x, y])"
| "boldScan a i [x] = [x]"
| "boldScan a i [] = []"

text \<open>
  \<^verbatim>\<open>italicScan a i prev\<close> follows claim C2 for the marker \<^verbatim>\<open>a\<close>, when \<^verbatim>\<open>i\<close> doubled captures
  have been seen and \<^verbatim>\<open>prev\<close> is the character before the current one. A marker that is not
  preceded by a marker is processed when it is followed by the end of the text, by one
  character that is not a marker, or by two markers: in the first two cases a backslash
  is put before it; in the last the capture counts, and the backslash goes before the
  marker on an odd count and after the captured pair on an even count.
\<close>

fun italicScan :: "char \<Rightarrow> nat \<Rightarrow> char option \<Rightarrow> string \<Rightarrow> string" where
  "italicScan a i prev [] = []"
| "italicScan a i prev (x # xs) =
     (if x = a \<and> prev \<noteq> Some a then
        (case xs of
           [] \<Rightarrow> [BS, a]
         | y # ys \<Rightarrow>
             if y \<noteq> a then BS # a # y # italicScan a i (Some y) ys
             else (case ys of
                     [] \<Rightarrow> x # italicScan a i (Some x) xs
                   | z # zs \<Rightarrow>
                       if z = a
                       then (if odd (i + 1) then [BS, a, a, a] else [a, a, BS, a])
                            @ italicScan a (i + 1) (Some a) zs
                       else x # italicScan a i (Some x) xs))
      else x # italicScan a i (Some x) xs)"

text \<open>The character before a position, if there is one.\<close>

definition before :: "string \<Rightarrow> char option" where
  "before pre = (case pre of [] \<Rightarrow> None | p # ps \<Rightarrow> Some p)"

text \<open>
  Claim C6 speaks of backslashes inserted immediately before characters that would
  otherwise be read as markdown syntax. \<^verbatim>\<open>special\<close> holds for the characters the engine ever
  puts a backslash before: the backslash itself, the backtick, \<^verbatim>\<open>*\<close>, \<^verbatim>\<open>_\<close>, \<^verbatim>\<open>~\<close>, \<^verbatim>\<open>|\<close>,
  \<^verbatim>\<open>#\<close>, \<^verbatim>\<open>-\<close>, \<^verbatim>\<open>.\<close> and \<^verbatim>\<open>[\<close>.
\<close>

definition special :: "char \<Rightarrow> bool" where
  "special x = (x \<in> set (BS # ''`*_~|#-.[''))"

text \<open>
  \<^verbatim>\<open>ins t out\<close>: the text \<^verbatim>\<open>out\<close> is the text \<^verbatim>\<open>t\<close> with backslashes inserted, each of them
  immediately before a special character of \<^verbatim>\<open>out\<close>. Every character of \<^verbatim>\<open>t\<close> is kept, in
  its place, and deleting the inserted backslashes from \<^verbatim>\<open>out\<close> gives \<^verbatim>\<open>t\<close> back.
\<close>

inductive ins :: "string \<Rightarrow> string \<Rightarrow> bool" where
  ins_Nil: "ins [] []"
| ins_keep: "ins xs ys \<Longrightarrow> ins (x # xs) (x # ys)"
| ins_add: "ins xs (y # ys) \<Longrightarrow> special y \<Longrightarrow> ins xs (BS # y # ys)"

code_pred ins .

text \<open>The options with every construct enabled.\<close>

definition allConstructs :: escapeMarkdownOptions where
  "allConstructs =
     \<lparr>codeBlock = True, inlineCode = True, bold = True, italic = True, underline = True,
      strikethrough = True, spoiler = True, codeBlockContent = True, inlineCodeContent = True,
      escape = True, heading = True, bulletedList = True, numberedList = True,
      maskedLink = True\<rparr>"

section \<open>The line-anchored escapers, line by line\<close>

text \<open>
  \<^verbatim>\<open>escapeHeading\<close>, \<^verbatim>\<open>escapeBulletedList\<close> and \<^verbatim>\<open>escapeNumberedList\<close> use patterns that start
  with \<^verbatim>\<open>^\<close> under the flag \<^verbatim>\<open>m\<close>: a match can only start at the beginning of the text or
  right after a line terminator. The definitions of this section say, without regular
  expressions, what such a pattern matches at the start of a line and what the match is
  replaced by; the theorems below prove that the escapers above compute exactly this.
\<close>

abbreviation isSpace :: "char \<Rightarrow> bool" where
  "isSpace \<equiv> (\<lambda>x. x = CHR '' '')"

abbreviation isHash :: "char \<Rightarrow> bool" where
  "isHash \<equiv> (\<lambda>x. x = CHR ''#'')"

abbreviation notLT :: "char \<Rightarrow> bool" where
  "notLT \<equiv> (\<lambda>x. \<not> lineTerminator x)"

text \<open>Is the position after the characters \<^verbatim>\<open>pre\<close> (nearest first) the start of a line?\<close>

definition lineStart :: "string \<Rightarrow> bool" where
  "lineStart pre = (case pre of [] \<Rightarrow> True | p # ps \<Rightarrow> lineTerminator p)"

text \<open>
  A count \<^verbatim>\<open>k\<close> of repetitions that a quantifier \<^verbatim>\<open>{lo,hi}\<close> allows.
\<close>

definition within :: "nat \<Rightarrow> nat option \<Rightarrow> nat \<Rightarrow> bool" where
  "within lo hi k = (lo \<le> k \<and> (case hi of None \<Rightarrow> True | Some h \<Rightarrow> k \<le> h))"

text \<open>
  \<^verbatim>\<open>/^( *)[*-]( +)/\<close> at the start of a line: spaces, one of \<^verbatim>\<open>*\<close> and \<^verbatim>\<open>-\<close>, and at least
  one space. The result is the replacement \<^verbatim>\<open>$1\-$2\<close> and the text after the match.
\<close>

definition bulletHead :: "string \<Rightarrow> (string \<times> string) option" where
  "bulletHead rest =
     (case dropWhile isSpace rest of
        [] \<Rightarrow> None
      | x # r2 \<Rightarrow>
          if x \<in> set ''*-'' \<and> takeWhile isSpace r2 \<noteq> []
          then Some (takeWhile isSpace rest @ BS # CHR ''-'' # takeWhile isSpace r2,
                     dropWhile isSpace r2)
          else None)"

text \<open>
  \<^verbatim>\<open>/^( *\d+)\./\<close> at the start of a line: spaces, at least one digit, and a dot. The
  result is the replacement \<^verbatim>\<open>$1\.\<close> and the text after the match.
\<close>

definition numberHead :: "string \<Rightarrow> (string \<times> string) option" where
  "numberHead rest =
     (case dropWhile isDigit (dropWhile isSpace rest) of
        [] \<Rightarrow> None
      | x # r3 \<Rightarrow>
          if takeWhile isDigit (dropWhile isSpace rest) \<noteq> [] \<and> x = CHR ''.''
          then Some (takeWhile isSpace rest @ takeWhile isDigit (dropWhile isSpace rest) @ [BS, CHR ''.''], r3)
          else None)"

text \<open>
  The two groups of \<^verbatim>\<open>/^( {0,2}[*-] +)?(#{1,3} )/\<close>: a list marker (at most two spaces, one
  of \<^verbatim>\<open>*\<close> and \<^verbatim>\<open>-\<close>, at least one space) and a run of one to three \<^verbatim>\<open>#\<close> with a space
  after it. Each gives the text of the group and the text after it.
\<close>

definition listMarker :: "string \<Rightarrow> (string \<times> string) option" where
  "listMarker rest =
     (case dropWhile isSpace rest of
        [] \<Rightarrow> None
      | x # r2 \<Rightarrow>
          if length (takeWhile isSpace rest) \<le> 2 \<and> x \<in> set ''*-'' \<and> takeWhile isSpace r2 \<noteq> []
          then Some (takeWhile isSpace rest @ x # takeWhile isSpace r2, dropWhile isSpace r2)
          else None)"

definition hashRun :: "string \<Rightarrow> (string \<times> string) option" where
  "hashRun r =
     (case dropWhile isHash r of
        [] \<Rightarrow> None
      | x # r' \<Rightarrow>
          if 1 \<le> length (takeWhile isHash r) \<and> length (takeWhile isHash r) \<le> 3 \<and> x = CHR '' ''
          then Some (takeWhile isHash r @ '' '', r')
          else None)"

abbreviation markerRegex :: regex where
  "markerRegex \<equiv> Grp 1 (Seq (Rep 0 (Some 2) (Chr (CHR '' ''))) (Seq (Cls ''*-'') (Plus (Chr (CHR '' '')))))"

abbreviation hashesRegex :: regex where
  "hashesRegex \<equiv> Grp 2 (Seq (Rep 1 (Some 3) (Chr (CHR ''#''))) (Chr (CHR '' '')))"

text \<open>
  The heading pattern at the start of a line: the list marker followed by the hashes if
  that matches, the hashes alone otherwise. The result is the replacement \<^verbatim>\<open>$1\$2\<close> and
  the text after the match.
\<close>

definition headingHead :: "string \<Rightarrow> (string \<times> string) option" where
  "headingHead rest =
     (case (case listMarker rest of
              None \<Rightarrow> None
            | Some (g1, r3) \<Rightarrow>
                (case hashRun r3 of None \<Rightarrow> None | Some (g2, r4) \<Rightarrow> Some (g1 @ BS # g2, r4))) of
        Some res \<Rightarrow> Some res
      | None \<Rightarrow> (case hashRun rest of None \<Rightarrow> None | Some (g2, r4) \<Rightarrow> Some (BS # g2, r4)))"

text \<open>
  A replacement that is only tried at the start of a line: \<^verbatim>\<open>h\<close> gives, for the text from
  the current position on, the replacement and the text after the match, if there is a
  match. \<^verbatim>\<open>bol\<close> says whether the current position is the start of a line.
\<close>

function lineScan :: "(string \<Rightarrow> (string \<times> string) option) \<Rightarrow> bool \<Rightarrow> string \<Rightarrow> string" where
  "lineScan h bol rest =
     (case (if bol then h rest else None) of
        Some (out, rest') \<Rightarrow>
          if length rest' < length rest then out @ lineScan h False rest'
          else (case rest of [] \<Rightarrow> [] | x # xs \<Rightarrow> x # lineScan h (lineTerminator x) xs)
      | None \<Rightarrow> (case rest of [] \<Rightarrow> [] | x # xs \<Rightarrow> x # lineScan h (lineTerminator x) xs))"
  by pat_completeness auto
termination
  by (relation "measure (\<lambda>(h, bol, rest). length rest)") (auto split: if_splits)

declare lineScan.simps [simp del]

text \<open>
  The options that enable no construct at all, with the two content flags at their
  defaults; the options "one construct enabled alone" are updates of it.
\<close>

definition noConstruct :: escapeMarkdownOptions where
  "noConstruct =
     \<lparr>codeBlock = False, inlineCode = False, bold = False, italic = False, underline = False,
      strikethrough = False, spoiler = False, codeBlockContent = True, inlineCodeContent = True,
      escape = False, heading = False, bulletedList = False, numberedList = False,
      maskedLink = False\<rparr>"

text \<open>
  A text in which no \<^verbatim>\<open>*\<close> can be taken for a list marker: every \<^verbatim>\<open>*\<close> that is followed by a
  space comes right after a \<^verbatim>\<open>*\<close> or a backslash. \<^verbatim>\<open>prev\<close> is the character before the text.
\<close>

fun starOK :: "char option \<Rightarrow> string \<Rightarrow> bool" where
  "starOK prev [] = True"
| "starOK prev (x # xs) =
     ((x = CHR ''*'' \<and> take 1 xs = '' '' \<longrightarrow> prev = Some (CHR ''*'') \<or> prev = Some BS)
      \<and> starOK (Some x) xs)"

text \<open>
  The pattern \<^verbatim>\<open>/\[.+\]\(.+\)/\<close> of the masked-link escaper, in pieces: the closing
  parenthesis, and the part of the pattern from \<^verbatim>\<open>\]\<close> on.
\<close>

abbreviation closeParen :: "mstate \<Rightarrow> mstate list" where
  "closeParen \<equiv> mt True (Chr (CHR '')'')) True"

abbreviation linkTail :: regex where
  "linkTail \<equiv> Seq (Chr (CHR '']'')) (Seq (Chr (CHR ''('')) (Seq (Plus Dot) (Chr (CHR '')''))))"

text \<open>A match state seen from a position with more text before it.\<close>

abbreviation shift :: "string \<Rightarrow> mstate \<Rightarrow> mstate" where
  "shift pre \<equiv> (\<lambda>(p, r, c). (p @ pre, r, c))"

section \<open>Basic facts\<close>

subsection \<open>Splitting and joining\<close>

lemma splitFrom_hit:
  "sep \<noteq> [] \<Longrightarrow> take (length sep) rest = sep \<Longrightarrow>
   splitFrom sep piece rest = piece # splitFrom sep [] (drop (length sep) rest)"
  by (subst splitFrom.simps) simp

lemma splitFrom_Nil: "splitFrom sep piece [] = [piece]"
  by (subst splitFrom.simps) auto

lemma splitFrom_miss:
  "\<not> (sep \<noteq> [] \<and> take (length sep) (x # xs) = sep) \<Longrightarrow>
   splitFrom sep piece (x # xs) = splitFrom sep (piece @ [x]) xs"
  by (subst splitFrom.simps) auto

lemma splitFrom_not_Nil: "splitFrom sep piece rest \<noteq> []"
proof (induction sep piece rest rule: splitFrom.induct)
  case (1 sep piece rest)
  show ?case
  proof (cases "sep \<noteq> [] \<and> take (length sep) rest = sep")
    case True
    then show ?thesis
      by (simp add: splitFrom_hit)
  next
    case False
    with "1.IH"(2) show ?thesis
      by (cases rest) (simp_all add: splitFrom_Nil splitFrom_miss)
  qed
qed

lemma join_Cons: "ys \<noteq> [] \<Longrightarrow> join sep (x # ys) = x @ sep @ join sep ys"
  by (cases ys) simp_all

lemma join_splitFrom: "join sep (splitFrom sep piece rest) = piece @ rest"
proof (induction sep piece rest rule: splitFrom.induct)
  case (1 sep piece rest)
  show ?case
  proof (cases "sep \<noteq> [] \<and> take (length sep) rest = sep")
    case True
    then have "join sep (splitFrom sep [] (drop (length sep) rest)) = drop (length sep) rest"
      using "1.IH"(1) by simp
    moreover have "sep @ drop (length sep) rest = rest"
      using True by (metis append_take_drop_id)
    ultimately show ?thesis
      using True by (simp add: splitFrom_hit join_Cons splitFrom_not_Nil)
  next
    case False
    show ?thesis
    proof (cases rest)
      case Nil
      then show ?thesis
        by (simp add: splitFrom_Nil)
    next
      case (Cons x xs)
      with "1.IH"(2) [OF False Cons] False show ?thesis
        by (simp add: splitFrom_miss)
    qed
  qed
qed

lemma join_split: "join sep (split sep t) = t"
  by (simp add: split_def join_splitFrom)

subsection \<open>The three branches of the composer\<close>

lemma escapeMarkdown_codeBlock_branch:
  assumes "\<not> codeBlockContent opts"
  shows "escapeMarkdown text opts =
     join (if codeBlock opts then BS # ''`'' @ BS # ''`'' @ BS # ''`'' else ''```'')
       (map (\<lambda>(index, subString).
               if index mod 2 \<noteq> 0 \<and> index \<noteq> length (split ''```'' text) - 1 then subString
               else escapeMarkdown subString (codeBlockBranchOptions opts))
          (enumerate 0 (split ''```'' text)))"
  using assms by (subst escapeMarkdown.simps) (simp add: Let_def)

lemma escapeMarkdown_inlineCode_branch:
  assumes "codeBlockContent opts" and "\<not> inlineCodeContent opts"
  shows "escapeMarkdown text opts =
     join (if inlineCode opts then BS # ''`'' else ''`'')
       (map (\<lambda>(index, subString).
               if index mod 2 \<noteq> 0 \<and> index \<noteq> length (splitRegex False inlineSplitRegex text) - 1
               then subString
               else escapeMarkdown subString (inlineCodeBranchOptions opts))
          (enumerate 0 (splitRegex False inlineSplitRegex text)))"
  using assms by (subst escapeMarkdown.simps) (simp add: Let_def)

lemma escapeMarkdown_sequence:
  assumes "codeBlockContent opts" and "inlineCodeContent opts"
  shows "escapeMarkdown text opts =
    applyIf (maskedLink opts) escapeMaskedLink
     (applyIf (numberedList opts) escapeNumberedList
      (applyIf (bulletedList opts) escapeBulletedList
       (applyIf (heading opts) escapeHeading
        (applyIf (spoiler opts) escapeSpoiler
         (applyIf (strikethrough opts) escapeStrikethrough
          (applyIf (underline opts) escapeUnderline
           (applyIf (bold opts) escapeBold
            (applyIf (italic opts) escapeItalic
             (applyIf (codeBlock opts) escapeCodeBlock
              (applyIf (inlineCode opts) escapeInlineCode
               (applyIf (escape opts) escapeEscape text)))))))))))"
  using assms by (subst escapeMarkdown.simps) (simp add: Let_def)

lemma branchOptions_content [simp]:
  "codeBlockContent (codeBlockBranchOptions opts)"
  "inlineCodeContent (codeBlockBranchOptions opts) = inlineCodeContent opts"
  "codeBlockContent (inlineCodeBranchOptions opts)"
  "inlineCodeContent (inlineCodeBranchOptions opts)"
  by (simp_all add: codeBlockBranchOptions_def inlineCodeBranchOptions_def defaults_def)

subsection \<open>The quantifier and the replacement loop, one step at a time\<close>

lemma rep_zero [simp]: "rep fwd m lo (Some 0) st = [st]"
  by (subst rep.simps) simp

lemma rep_opt:
  "rep fwd m 0 (Some (Suc 0)) st =
     concat (map (\<lambda>st'. if remaining fwd st' < remaining fwd st then [st'] else []) (m st))
     @ [st]"
  by (subst rep.simps) (simp cong: if_cong)

lemma replaceFrom_Nil: "matchAt ml r pre [] = None \<Longrightarrow> replaceFrom ml r f s pre [] = []"
  by (subst replaceFrom.simps) simp

lemma replaceFrom_miss:
  "matchAt ml r pre (x # xs) = None \<Longrightarrow>
   replaceFrom ml r f s pre (x # xs) = x # replaceFrom ml r f s (x # pre) xs"
  by (subst replaceFrom.simps) simp

lemma replaceFrom_hit:
  "matchAt ml r pre rest = Some (pre', rest', c) \<Longrightarrow> length rest' < length rest \<Longrightarrow>
   replaceFrom ml r f s pre rest =
     fst (f s (take (length rest - length rest') rest) c)
       @ replaceFrom ml r f (snd (f s (take (length rest - length rest') rest) c)) pre' rest'"
  by (subst replaceFrom.simps) (simp add: case_prod_unfold)

lemma increment_parity: "((i + 1) mod 2 \<noteq> 0) = even (i::nat)"
  by presburger

lemma before_Cons [simp]: "before (p # ps) = Some p"
  by (simp add: before_def)

lemma before_Nil [simp]: "before [] = None"
  by (simp add: before_def)

section \<open>Greedy repetition and the line-anchored patterns\<close>

lemma clear_Nil [simp]: "clear [] st = st"
  by (cases st) simp

lemma rep_then:
  assumes fails: "\<And>pre' x xs c'. P x \<Longrightarrow> f (pre', x # xs, c') = []"
    and bnd: "case hi of None \<Rightarrow> True | Some h \<Rightarrow> lo \<le> h"
  shows "concat (map f (rep True (step True P) lo hi (pre, rest, c))) =
    (if within lo hi (length (takeWhile P rest))
     then f (rev (takeWhile P rest) @ pre, dropWhile P rest, c) else [])"
  using bnd
proof (induction rest arbitrary: lo hi pre)
  case Nil
  then show ?case
    by (subst rep.simps) (auto simp add: within_def split: option.splits)
next
  case (Cons x xs)
  show ?case
  proof (cases "hi = Some 0")
    case True
    with Cons.prems show ?thesis
      by (auto simp add: within_def fails)
  next
    case False
    show ?thesis
    proof (cases "P x")
      case False
      with Cons.prems show ?thesis
        by (subst rep.simps) (auto simp add: within_def split: option.splits)
    next
      case True
      have b: "case map_option (\<lambda>h. h - 1) hi of None \<Rightarrow> True | Some h \<Rightarrow> lo - 1 \<le> h"
        using Cons.prems by (auto split: option.splits)
      have w: "within (lo - 1) (map_option (\<lambda>h. h - 1) hi) (length (takeWhile P xs))
          = within lo hi (Suc (length (takeWhile P xs)))"
        using \<open>hi \<noteq> Some 0\<close> by (auto simp add: within_def split: option.splits)
      have "concat (map f (rep True (step True P) lo hi (pre, x # xs, c))) =
          concat (map f (rep True (step True P) (lo - 1) (map_option (\<lambda>h. h - 1) hi) (x # pre, xs, c)))"
        using True \<open>hi \<noteq> Some 0\<close> by (subst rep.simps) (simp add: fails)
      also have "\<dots> = (if within (lo - 1) (map_option (\<lambda>h. h - 1) hi) (length (takeWhile P xs))
          then f (rev (takeWhile P xs) @ x # pre, dropWhile P xs, c) else [])"
        by (rule Cons.IH [OF b])
      finally show ?thesis
        using True w by simp
    qed
  qed
qed

lemma rep_head:
  assumes "lo \<le> length (takeWhile P rest)"
  shows "\<exists>others. rep True (step True P) lo None (pre, rest, c) =
     (rev (takeWhile P rest) @ pre, dropWhile P rest, c) # others"
  using assms
proof (induction rest arbitrary: lo pre)
  case Nil
  then show ?case
    by (subst rep.simps) simp
next
  case (Cons x xs)
  show ?case
  proof (cases "P x")
    case False
    with Cons.prems show ?thesis
      by (subst rep.simps) simp
  next
    case True
    with Cons.prems have "lo - 1 \<le> length (takeWhile P xs)"
      by simp
    from Cons.IH [OF this, of "x # pre"] obtain others where
      "rep True (step True P) (lo - 1) None (x # pre, xs, c) =
         (rev (takeWhile P xs) @ x # pre, dropWhile P xs, c) # others"
      by blast
    with True show ?thesis
      by (subst rep.simps) simp
  qed
qed

lemma rep_none:
  assumes "length (takeWhile P rest) < lo"
  shows "rep True (step True P) lo None (pre, rest, c) = []"
  using assms
proof (induction rest arbitrary: lo pre)
  case Nil
  then show ?case
    by (subst rep.simps) simp
next
  case (Cons x xs)
  show ?case
  proof (cases "P x")
    case False
    with Cons.prems show ?thesis
      by (subst rep.simps) simp
  next
    case True
    with Cons.prems have "length (takeWhile P xs) < lo - 1"
      by simp
    from Cons.IH [OF this, of "x # pre"] True Cons.prems show ?thesis
      by (subst rep.simps) simp
  qed
qed

lemma atBol_lineStart [simp]: "atBol True (pre, rest, c) = lineStart pre"
  by (cases pre) (simp_all add: lineStart_def)

lemma capture_fwd:
  "capture True k (pre, rest, c) (rev w @ pre, rest', c') = (rev w @ pre, rest', (k, w) # c')"
  by simp

lemma capture_fwd2:
  "capture True k (pre, rest, c) (rev w @ x # pre, rest', c') = (rev w @ x # pre, rest', (k, x # w) # c')"
  using capture_fwd [of k pre rest c "x # w" rest' c'] by simp

lemma mt_bulleted_not_lineStart:
  "\<not> lineStart pre \<Longrightarrow> mt True bulletedListRegex True (pre, rest, c) = []"
  by (simp add: bulletedListRegex_def)

lemma mt_marker_spaces:
  "mt True (Seq (Cls ''*-'') (Grp 2 (Plus (Chr (CHR '' ''))))) True (p, r1, c) =
     (case r1 of
        [] \<Rightarrow> []
      | x # r2 \<Rightarrow>
          if x \<in> set ''*-''
          then map (capture True 2 (x # p, r2, c)) (rep True (step True isSpace) 1 None (x # p, r2, c))
          else [])"
  by (cases r1) (simp_all del: capture.simps)

lemma mt_bulleted:
  assumes "lineStart pre"
  shows "mt True bulletedListRegex True (pre, rest, []) =
     (case dropWhile isSpace rest of
        [] \<Rightarrow> []
      | x # r2 \<Rightarrow>
          if x \<in> set ''*-''
          then map (capture True 2 (x # rev (takeWhile isSpace rest) @ pre, r2, [(1, takeWhile isSpace rest)]))
                 (rep True (step True isSpace) 1 None
                    (x # rev (takeWhile isSpace rest) @ pre, r2, [(1, takeWhile isSpace rest)]))
          else [])"
proof -
  let ?F = "mt True (Seq (Cls ''*-'') (Grp 2 (Plus (Chr (CHR '' ''))))) True"
  have "mt True bulletedListRegex True (pre, rest, []) =
      concat (map (?F \<circ> capture True 1 (pre, rest, []))
        (rep True (step True isSpace) 0 None (pre, rest, [])))"
    using assms by (simp add: bulletedListRegex_def del: capture.simps)
  also have "\<dots> = (?F \<circ> capture True 1 (pre, rest, []))
       (rev (takeWhile isSpace rest) @ pre, dropWhile isSpace rest, [])"
    by (subst rep_then) (simp_all add: within_def)
  also have "\<dots> = ?F (rev (takeWhile isSpace rest) @ pre, dropWhile isSpace rest, [(1, takeWhile isSpace rest)])"
    by (simp only: o_apply capture_fwd)
  finally show ?thesis
    by (simp only: mt_marker_spaces)
qed

lemma matchAt_bulleted:
  "matchAt True bulletedListRegex pre rest =
     (if lineStart pre then
        (case dropWhile isSpace rest of
           [] \<Rightarrow> None
         | x # r2 \<Rightarrow>
             if x \<in> set ''*-'' \<and> takeWhile isSpace r2 \<noteq> []
             then Some (rev (takeWhile isSpace r2) @ x # rev (takeWhile isSpace rest) @ pre,
                        dropWhile isSpace r2,
                        [(2, takeWhile isSpace r2), (1, takeWhile isSpace rest)])
             else None)
      else None)"
proof (cases "lineStart pre")
  case False
  then show ?thesis
    by (simp add: matchAt_def mt_bulleted_not_lineStart)
next
  case True
  define s1 where "s1 = takeWhile isSpace rest"
  define r1 where "r1 = dropWhile isSpace rest"
  have "matchAt True bulletedListRegex pre rest =
        (case r1 of
           [] \<Rightarrow> None
         | x # r2 \<Rightarrow>
             if x \<in> set ''*-'' \<and> takeWhile isSpace r2 \<noteq> []
             then Some (rev (takeWhile isSpace r2) @ x # rev s1 @ pre, dropWhile isSpace r2,
                        [(2, takeWhile isSpace r2), (1, s1)])
             else None)"
  proof (cases r1)
    case Nil
    then show ?thesis
      unfolding matchAt_def mt_bulleted [OF True] r1_def [symmetric] by simp
  next
    case (Cons x r2)
    show ?thesis
    proof (cases "x \<in> set ''*-'' \<and> takeWhile isSpace r2 \<noteq> []")
      case False
      then have "x \<notin> set ''*-'' \<or> length (takeWhile isSpace r2) < 1"
        by auto
      with Cons False show ?thesis
        unfolding matchAt_def mt_bulleted [OF True] r1_def [symmetric] s1_def [symmetric]
        by (auto simp add: rep_none simp del: capture.simps)
    next
      case m: True
      then have "1 \<le> length (takeWhile isSpace r2)"
        by (cases "takeWhile isSpace r2") simp_all
      from rep_head [OF this, of "x # rev s1 @ pre" "[(1, s1)]"]
      obtain others where "rep True (step True isSpace) 1 None (x # rev s1 @ pre, r2, [(1, s1)]) =
         (rev (takeWhile isSpace r2) @ x # rev s1 @ pre, dropWhile isSpace r2, [(1, s1)]) # others"
        by blast
      with Cons m show ?thesis
        unfolding matchAt_def mt_bulleted [OF True] r1_def [symmetric] s1_def [symmetric]
        by (simp add: capture_fwd del: capture.simps)
    qed
  qed
  with True show ?thesis
    unfolding r1_def s1_def by simp
qed

lemma not_digit_space [simp]: "\<not> isDigit (CHR '' '')" "\<not> isDigit (CHR ''.'')"
  by (simp_all add: isDigit_def)

lemma mt_Chr_fun [simp]: "mt ml (Chr a) fwd = step fwd (\<lambda>x. x = a)"
  by (rule ext) simp

lemma mt_digits_space:
  "mt True (Rep (Suc 0) None Digit) True (p, CHR '' '' # xs, c) = []"
  by (simp add: rep_none)

lemma mt_numbered_not_lineStart:
  "\<not> lineStart pre \<Longrightarrow> mt True numberedListRegex True (pre, rest, c) = []"
  by (simp add: numberedListRegex_def)

lemma mt_numbered:
  assumes "lineStart pre"
  shows "mt True numberedListRegex True (pre, rest, []) =
     (if takeWhile isDigit (dropWhile isSpace rest) \<noteq> []
      then step True (\<lambda>x. x = CHR ''.'')
             (rev (takeWhile isDigit (dropWhile isSpace rest)) @ rev (takeWhile isSpace rest) @ pre,
              dropWhile isDigit (dropWhile isSpace rest),
              [(1, takeWhile isSpace rest @ takeWhile isDigit (dropWhile isSpace rest))])
      else [])"
proof -
  define s1 where "s1 = takeWhile isSpace rest"
  define r1 where "r1 = dropWhile isSpace rest"
  let ?dot = "step True (\<lambda>x. x = CHR ''.'')"
  have "mt True numberedListRegex True (pre, rest, []) =
      concat (map (?dot \<circ> capture True 1 (pre, rest, []))
        (concat (map (mt True (Plus Digit) True) (rep True (step True isSpace) 0 None (pre, rest, [])))))"
    using assms by (simp add: numberedListRegex_def del: capture.simps)
  also have "concat (map (mt True (Plus Digit) True) (rep True (step True isSpace) 0 None (pre, rest, [])))
      = mt True (Plus Digit) True (rev s1 @ pre, r1, [])"
    unfolding s1_def r1_def by (subst rep_then) (simp_all add: within_def mt_digits_space del: mt.simps)
  also have "mt True (Plus Digit) True (rev s1 @ pre, r1, []) = rep True (step True isDigit) 1 None (rev s1 @ pre, r1, [])"
    by simp
  also have "concat (map (?dot \<circ> capture True 1 (pre, rest, [])) (rep True (step True isDigit) 1 None (rev s1 @ pre, r1, [])))
      = (if within 1 None (length (takeWhile isDigit r1))
         then (?dot \<circ> capture True 1 (pre, rest, [])) (rev (takeWhile isDigit r1) @ rev s1 @ pre, dropWhile isDigit r1, [])
         else [])"
    by (subst rep_then) auto
  also have "(?dot \<circ> capture True 1 (pre, rest, [])) (rev (takeWhile isDigit r1) @ rev s1 @ pre, dropWhile isDigit r1, [])
      = ?dot (rev (takeWhile isDigit r1) @ rev s1 @ pre, dropWhile isDigit r1, [(1, s1 @ takeWhile isDigit r1)])"
    using capture_fwd [of 1 pre rest "[]" "s1 @ takeWhile isDigit r1" "dropWhile isDigit r1" "[]"]
    by (simp del: capture.simps)
  finally show ?thesis
    unfolding s1_def r1_def by (simp add: within_def Suc_le_eq)
qed

lemma concat_map_concat:
  "concat (map f (concat (map g xs))) = concat (map (\<lambda>x. concat (map f (g x))) xs)"
  by (induction xs) simp_all

lemma mt_hashes:
  "mt True hashesRegex True (p, r, c) =
     (case hashRun r of
        None \<Rightarrow> []
      | Some (g2, r4) \<Rightarrow> [(rev g2 @ p, r4, (2, g2) # c)])"
proof -
  define h where "h = takeWhile isHash r"
  define r' where "r' = dropWhile isHash r"
  have "mt True hashesRegex True (p, r, c) =
      map (capture True 2 (p, r, c))
        (concat (map (step True isSpace) (rep True (step True isHash) 1 (Some 3) (p, r, c))))"
    by (simp del: capture.simps)
  also have "concat (map (step True isSpace) (rep True (step True isHash) 1 (Some 3) (p, r, c)))
      = (if within 1 (Some 3) (length h) then step True isSpace (rev h @ p, r', c) else [])"
    unfolding h_def r'_def by (subst rep_then) auto
  finally have "mt True hashesRegex True (p, r, c) =
      map (capture True 2 (p, r, c))
        (if within 1 (Some 3) (length h) then step True isSpace (rev h @ p, r', c) else [])" .
  moreover have "hashRun r = (case r' of [] \<Rightarrow> None
      | x # r'' \<Rightarrow> if within 1 (Some 3) (length h) \<and> x = CHR '' '' then Some (h @ '' '', r'') else None)"
    unfolding hashRun_def h_def r'_def within_def
    by (auto split: list.split simp del: dropWhile_eq_Nil_conv)
  moreover have "capture True 2 (p, r, c) (CHR '' '' # rev h @ p, r'', c) = (CHR '' '' # rev h @ p, r'', (2, h @ '' '') # c)" for r''
    using capture_fwd [of 2 p r c "h @ '' ''" r'' c] by (simp del: capture.simps)
  ultimately show ?thesis
    by (cases r') (simp_all del: capture.simps)
qed

lemma mt_marker_plain:
  "mt True (Seq (Cls ''*-'') (Plus (Chr (CHR '' '')))) True (p, r1, c) =
     (case r1 of
        [] \<Rightarrow> []
      | x # r2 \<Rightarrow>
          if x \<in> set ''*-'' then rep True (step True isSpace) 1 None (x # p, r2, c) else [])"
  by (cases r1) simp_all

lemma hashRun_space [simp]: "hashRun (CHR '' '' # xs) = None"
  by (simp add: hashRun_def)

lemma length_dropWhile_less:
  "takeWhile P xs \<noteq> [] \<Longrightarrow> length (dropWhile P xs) < length xs"
  by (cases xs) (auto simp add: le_imp_less_Suc length_dropWhile_le split: if_splits)

text \<open>The optional list marker of the heading pattern, followed by the hashes.\<close>

lemma mt_marker_then_hashes:
  "concat (map (mt True hashesRegex True)
     (concat (map (\<lambda>st'. if remaining True st' < remaining True (pre, rest, []) then [st'] else [])
        (mt True markerRegex True (pre, rest, [])))))
   = (case listMarker rest of
        None \<Rightarrow> []
      | Some (g1, r3) \<Rightarrow> mt True hashesRegex True (rev g1 @ pre, r3, [(1, g1)]))"
proof -
  define s1 where "s1 = takeWhile isSpace rest"
  define r1 where "r1 = dropWhile isSpace rest"
  let ?prog = "\<lambda>st'. if remaining True st' < remaining True (pre, rest, []) then [st'] else []"
  let ?F = "\<lambda>s. concat (map (mt True hashesRegex True) (?prog (capture True 1 (pre, rest, []) s)))"
  have rest: "rest = s1 @ r1"
    by (simp add: s1_def r1_def)
  have lm: "listMarker rest = (case r1 of [] \<Rightarrow> None
      | x # r2 \<Rightarrow> if length s1 \<le> 2 \<and> x \<in> set ''*-'' \<and> takeWhile isSpace r2 \<noteq> []
          then Some (s1 @ x # takeWhile isSpace r2, dropWhile isSpace r2) else None)"
    unfolding listMarker_def s1_def r1_def by (rule refl)
  have "mt True markerRegex True (pre, rest, []) =
      map (capture True 1 (pre, rest, []))
        (concat (map (mt True (Seq (Cls ''*-'') (Plus (Chr (CHR '' '')))) True)
           (rep True (step True isSpace) 0 (Some 2) (pre, rest, []))))"
    by (simp del: capture.simps)
  also have "concat (map (mt True (Seq (Cls ''*-'') (Plus (Chr (CHR '' '')))) True)
           (rep True (step True isSpace) 0 (Some 2) (pre, rest, [])))
      = (if length s1 \<le> 2
         then mt True (Seq (Cls ''*-'') (Plus (Chr (CHR '' '')))) True (rev s1 @ pre, r1, [])
         else [])"
    unfolding s1_def r1_def
  proof (subst rep_then)
    show "mt True (Seq (Cls ''*-'') (Plus (Chr (CHR '' '')))) True (pre', y # ys, c') = []"
      if "isSpace y" for pre' y ys c'
      using that by simp
  qed (simp_all add: within_def del: mt.simps)
  finally have m: "mt True markerRegex True (pre, rest, []) =
      map (capture True 1 (pre, rest, []))
        (if length s1 \<le> 2
         then (case r1 of [] \<Rightarrow> []
               | x # r2 \<Rightarrow> if x \<in> set ''*-''
                   then rep True (step True isSpace) 1 None (x # rev s1 @ pre, r2, []) else [])
         else [])"
    by (simp only: mt_marker_plain)
  show ?thesis
  proof (cases "length s1 \<le> 2 \<and> (\<exists>x r2. r1 = x # r2 \<and> x \<in> set ''*-'')")
    case False
    then show ?thesis
      unfolding m lm by (auto split: list.split)
  next
    case True
    then obtain x r2 where r1: "r1 = x # r2" and x: "x \<in> set ''*-''" and s1: "length s1 \<le> 2"
      by blast
    have "concat (map (mt True hashesRegex True) (concat (map ?prog (mt True markerRegex True (pre, rest, [])))))
        = concat (map ?F (rep True (step True isSpace) 1 None (x # rev s1 @ pre, r2, [])))"
      unfolding m using r1 x s1 by (simp add: concat_map_concat comp_def del: capture.simps mt.simps remaining.simps cong: if_cong)
    also have "\<dots> = (if within 1 None (length (takeWhile isSpace r2))
        then ?F (rev (takeWhile isSpace r2) @ x # rev s1 @ pre, dropWhile isSpace r2, []) else [])"
    proof (subst rep_then)
      show "?F (pre', y # ys, c') = []" if "isSpace y" for pre' y ys c'
        using that by (simp add: mt_hashes [unfolded One_nat_def] del: mt.simps)
    qed simp_all
    also have "\<dots> = (if takeWhile isSpace r2 \<noteq> []
        then mt True hashesRegex True (rev (takeWhile isSpace r2) @ x # rev s1 @ pre, dropWhile isSpace r2,
               [(1, s1 @ x # takeWhile isSpace r2)])
        else [])"
    proof (cases "takeWhile isSpace r2 = []")
      case True
      then show ?thesis
        by (simp add: within_def)
    next
      case False
      then have "length (dropWhile isSpace r2) < length r2"
        by (rule length_dropWhile_less)
      then have "length (dropWhile isSpace r2) < length rest"
        using rest r1 by simp
      moreover have "capture True 1 (pre, rest, [])
           (rev (takeWhile isSpace r2) @ x # rev s1 @ pre, dropWhile isSpace r2, [])
         = (rev (takeWhile isSpace r2) @ x # rev s1 @ pre, dropWhile isSpace r2,
             [(1, s1 @ x # takeWhile isSpace r2)])"
        using capture_fwd [of 1 pre rest "[]" "s1 @ x # takeWhile isSpace r2" "dropWhile isSpace r2" "[]"]
        by (simp del: capture.simps)
      ultimately show ?thesis
        using False by (simp add: within_def Suc_le_eq del: capture.simps mt.simps)
    qed
    finally show ?thesis
      unfolding lm using r1 x s1 by (simp del: mt.simps)
  qed
qed

lemma lineScan_Nil: "lineScan h bol [] = []"
  by (subst lineScan.simps) (auto split: option.split)

lemma lineScan_copy:
  "(if bol then h (x # xs) else None) = None \<Longrightarrow>
   lineScan h bol (x # xs) = x # lineScan h (lineTerminator x) xs"
  by (subst lineScan.simps) simp

lemma lineScan_hit:
  "h rest = Some (out, rest') \<Longrightarrow> length rest' < length rest \<Longrightarrow>
   lineScan h True rest = out @ lineScan h False rest'"
  by (subst lineScan.simps) simp

lemma lineStart_Cons [simp]: "lineStart (x # pre) = lineTerminator x"
  by (simp add: lineStart_def)

lemma replaceFrom_lineScan:
  assumes a: "\<And>pre rest. \<not> lineStart pre \<Longrightarrow> matchAt ml r pre rest = None"
    and b: "\<And>pre rest. lineStart pre \<Longrightarrow> h rest = None \<Longrightarrow> matchAt ml r pre rest = None"
    and c: "\<And>pre rest out rest'. lineStart pre \<Longrightarrow> h rest = Some (out, rest') \<Longrightarrow>
        \<exists>pre' c. matchAt ml r pre rest = Some (pre', rest', c) \<and> length rest' < length rest \<and>
          \<not> lineStart pre' \<and> fst (f () (take (length rest - length rest') rest) c) = out"
  shows "replaceFrom ml r f () pre rest = lineScan h (lineStart pre) rest"
proof (induction rest arbitrary: pre rule: length_induct)
  case (1 rest)
  show ?case
  proof (cases "lineStart pre \<and> h rest \<noteq> None")
    case True
    then obtain out rest' where h: "h rest = Some (out, rest')"
      by auto
    from c [OF _ h, of pre] True obtain pre' cs where m: "matchAt ml r pre rest = Some (pre', rest', cs)"
      and l: "length rest' < length rest" and n: "\<not> lineStart pre'"
      and o: "fst (f () (take (length rest - length rest') rest) cs) = out"
      by blast
    have "replaceFrom ml r f () pre' rest' = lineScan h (lineStart pre') rest'"
      using 1 l by blast
    moreover have "lineScan h True rest = out @ lineScan h False rest'"
      using h l by (rule lineScan_hit)
    ultimately show ?thesis
      using True n o by (simp add: replaceFrom_hit [OF m l])
  next
    case False
    then have m: "matchAt ml r pre rest = None"
      using a b by blast
    from False have n: "(if lineStart pre then h rest else None) = None"
      by (cases "h rest") auto
    show ?thesis
    proof (cases rest)
      case Nil
      with m show ?thesis
        by (simp add: replaceFrom_Nil lineScan_Nil)
    next
      case (Cons x xs)
      then have "replaceFrom ml r f () (x # pre) xs = lineScan h (lineStart (x # pre)) xs"
        using 1 by simp
      moreover have "lineScan h (lineStart pre) (x # xs) = x # lineScan h (lineTerminator x) xs"
        using n Cons by (intro lineScan_copy) (auto split: if_splits)
      ultimately show ?thesis
        using m Cons by (simp add: replaceFrom_miss)
    qed
  qed
qed

lemma lineScan_copy_prefix:
  "\<forall>x\<in>set w. \<not> lineTerminator x \<Longrightarrow> lineScan h False (w @ z) = w @ lineScan h False z"
  by (induction w) (simp_all add: lineScan_copy)

lemma takeWhile_lineScan:
  "takeWhile notLT (lineScan h False xs) = takeWhile notLT xs"
  by (induction xs) (simp_all add: lineScan_Nil lineScan_copy)

lemma lineScan_idem:
  assumes H1: "\<And>rest out rest'. h rest = Some (out, rest') \<Longrightarrow>
        length rest' < length rest \<and> (\<forall>x\<in>set out. \<not> lineTerminator x) \<and> out \<noteq> [] \<and>
        (\<forall>z. h (out @ z) = None)"
    and H2: "\<And>rest. (h rest = None) = (h (takeWhile notLT rest) = None)"
  shows "lineScan h bol (lineScan h bol rest) = lineScan h bol rest"
proof (induction rest arbitrary: bol rule: length_induct)
  case (1 rest)
  show ?case
  proof (cases "bol \<and> h rest \<noteq> None")
    case True
    then obtain out rest' where h: "h rest = Some (out, rest')"
      by auto
    from H1 [OF h] have l: "length rest' < length rest" and n: "\<forall>x\<in>set out. \<not> lineTerminator x"
      and o: "out \<noteq> []" and z: "\<And>z. h (out @ z) = None"
      by blast+
    let ?L = "lineScan h False rest'"
    have first: "lineScan h True rest = out @ ?L"
      using h l by (rule lineScan_hit)
    from o obtain o1 out' where out: "out = o1 # out'"
      by (cases out) auto
    have "lineScan h True (out @ ?L) = o1 # lineScan h (lineTerminator o1) (out' @ ?L)"
      unfolding out append_Cons by (rule lineScan_copy) (use z [of ?L] out in simp)
    also have "\<dots> = o1 # out' @ lineScan h False ?L"
      using n out by (simp add: lineScan_copy_prefix)
    also have "lineScan h False ?L = ?L"
      using 1 l by blast
    finally show ?thesis
      using True first out by simp
  next
    case False
    then have n: "(if bol then h rest else None) = None"
      by (cases "h rest") auto
    show ?thesis
    proof (cases rest)
      case Nil
      then show ?thesis
        by (simp add: lineScan_Nil)
    next
      case (Cons x xs)
      let ?L = "lineScan h (lineTerminator x) xs"
      have first: "lineScan h bol rest = x # ?L"
        unfolding Cons by (rule lineScan_copy) (use n Cons in \<open>auto split: if_splits\<close>)
      have "(if bol then h (x # ?L) else None) = None"
      proof (cases bol)
        case True
        with n Cons have "h (x # xs) = None"
          by (auto split: if_splits)
        then have "h (takeWhile notLT (x # xs)) = None"
          using H2 by blast
        moreover have "takeWhile notLT (x # ?L) = takeWhile notLT (x # xs)"
          by (simp add: takeWhile_lineScan)
        ultimately have "h (takeWhile notLT (x # ?L)) = None"
          by simp
        then have "h (x # ?L) = None"
          using H2 by blast
        then show ?thesis
          by simp
      qed simp
      then have "lineScan h bol (x # ?L) = x # lineScan h (lineTerminator x) ?L"
        by (rule lineScan_copy)
      moreover have "lineScan h (lineTerminator x) ?L = ?L"
        using 1 Cons by simp
      ultimately show ?thesis
        using first by simp
    qed
  qed
qed

lemma getSubstitution_templates:
  "getSubstitution 2 m c (''$1'' @ BS # ''$2'') = group c 1 @ BS # group c 2"
  "getSubstitution 2 m c (''$1'' @ BS # ''-$2'') = group c 1 @ BS # CHR ''-'' # group c 2"
  "getSubstitution 1 m c (''$1'' @ BS # ''.'') = group c 1 @ [BS, CHR ''.'']"
  "getSubstitution 0 m c (BS # ''$&'') = BS # m"
  by (simp_all add: isDigit_def digitValue_def group_def)

lemma matchAt_numbered:
  "matchAt True numberedListRegex pre rest =
     (if lineStart pre then
        (case dropWhile isDigit (dropWhile isSpace rest) of
           [] \<Rightarrow> None
         | x # r3 \<Rightarrow>
             if takeWhile isDigit (dropWhile isSpace rest) \<noteq> [] \<and> x = CHR ''.''
             then Some (x # rev (takeWhile isDigit (dropWhile isSpace rest)) @ rev (takeWhile isSpace rest) @ pre,
                        r3,
                        [(1, takeWhile isSpace rest @ takeWhile isDigit (dropWhile isSpace rest))])
             else None)
      else None)"
proof (cases "lineStart pre")
  case False
  then show ?thesis
    by (simp add: matchAt_def mt_numbered_not_lineStart)
next
  case True
  define r2 where "r2 = dropWhile isDigit (dropWhile isSpace rest)"
  show ?thesis
    unfolding matchAt_def mt_numbered [OF True] r2_def [symmetric]
    using True by (cases r2) simp_all
qed

lemma mt_heading_not_lineStart:
  "\<not> lineStart pre \<Longrightarrow> mt True headingRegex True (pre, rest, c) = []"
  by (simp add: headingRegex_def)

lemma mt_heading:
  assumes "lineStart pre"
  shows "mt True headingRegex True (pre, rest, []) =
     (case listMarker rest of
        None \<Rightarrow> []
      | Some (g1, r3) \<Rightarrow> mt True hashesRegex True (rev g1 @ pre, r3, [(1, g1)]))
     @ mt True hashesRegex True (pre, rest, [])"
proof -
  let ?prog = "\<lambda>st'. if remaining True st' < remaining True (pre, rest, []) then [st'] else []"
  have "mt True headingRegex True (pre, rest, []) =
      concat (map (mt True hashesRegex True) (concat (map ?prog (mt True markerRegex True (pre, rest, [])))))
      @ mt True hashesRegex True (pre, rest, [])"
    using assms by (simp add: headingRegex_def rep_opt del: mt.simps(11) remaining.simps)
  then show ?thesis
    by (simp only: mt_marker_then_hashes)
qed

lemma matchAt_heading:
  "matchAt True headingRegex pre rest =
     (if lineStart pre then
        (case (case listMarker rest of
                 None \<Rightarrow> None
               | Some (g1, r3) \<Rightarrow>
                   (case hashRun r3 of
                      None \<Rightarrow> None
                    | Some (g2, r4) \<Rightarrow> Some (rev g2 @ rev g1 @ pre, r4, [(2, g2), (1, g1)]))) of
           Some st \<Rightarrow> Some st
         | None \<Rightarrow>
             (case hashRun rest of
                None \<Rightarrow> None
              | Some (g2, r4) \<Rightarrow> Some (rev g2 @ pre, r4, [(2, g2)])))
      else None)"
proof (cases "lineStart pre")
  case False
  then show ?thesis
    by (simp add: matchAt_def mt_heading_not_lineStart)
next
  case True
  show ?thesis
    unfolding matchAt_def mt_heading [OF True] mt_hashes
    using True by (simp split: option.split)
qed

lemma takeWhile_takeWhile_sub:
  "(\<And>x. P x \<Longrightarrow> Q x) \<Longrightarrow> takeWhile P (takeWhile Q xs) = takeWhile P xs"
  by (induction xs) auto

lemma dropWhile_takeWhile_sub:
  "(\<And>x. P x \<Longrightarrow> Q x) \<Longrightarrow> dropWhile P (takeWhile Q xs) = takeWhile Q (dropWhile P xs)"
  by (induction xs) auto

lemma notLT_simps [simp]:
  "\<not> lineTerminator (CHR '' '')" "\<not> lineTerminator (CHR ''#'')" "\<not> lineTerminator (CHR ''*'')"
  "\<not> lineTerminator (CHR ''-'')" "\<not> lineTerminator (CHR ''.'')" "\<not> lineTerminator BS"
  by (auto simp add: lineTerminator_def)

lemma notLT_digit: "isDigit x \<Longrightarrow> \<not> lineTerminator x"
  by (auto simp add: lineTerminator_def isDigit_def)

lemma notLT_takeWhile_space: "\<forall>x\<in>set (takeWhile isSpace xs). \<not> lineTerminator x"
  by (metis set_takeWhileD notLT_simps(1))

lemma notLT_takeWhile_hash: "\<forall>x\<in>set (takeWhile isHash xs). \<not> lineTerminator x"
  by (metis set_takeWhileD notLT_simps(2))

lemma notLT_takeWhile_digit: "\<forall>x\<in>set (takeWhile isDigit xs). \<not> lineTerminator x"
  by (metis set_takeWhileD notLT_digit)

lemma notLT_marker: "x \<in> set ''*-'' \<Longrightarrow> \<not> lineTerminator x"
  by (metis notLT_simps(3,4) empty_iff empty_set set_ConsD)

lemma dropWhile_takeWhile_append: "dropWhile P (takeWhile P xs @ ys) = dropWhile P ys"
  by (metis dropWhile_append2 set_takeWhileD)

lemma takeWhile_takeWhile_append:
  "takeWhile P (takeWhile P xs @ y # ys) = (if P y then takeWhile P xs @ takeWhile P (y # ys) else takeWhile P xs)"
  by (induction xs) simp_all

lemma length_takeWhile_dropWhile: "length xs = length (takeWhile P xs) + length (dropWhile P xs)"
  by (metis length_append takeWhile_dropWhile_id)

subsection \<open>Bulleted lists\<close>

lemma bulletHead_local:
  "bulletHead (takeWhile notLT rest) =
     map_option (\<lambda>(out, rest'). (out, takeWhile notLT rest')) (bulletHead rest)"
proof -
  define r1 where "r1 = dropWhile isSpace rest"
  have a: "dropWhile isSpace (takeWhile notLT rest) = takeWhile notLT r1"
    unfolding r1_def by (rule dropWhile_takeWhile_sub) simp
  have b: "takeWhile isSpace (takeWhile notLT r2) = takeWhile isSpace r2" for r2
    by (rule takeWhile_takeWhile_sub) simp
  have c: "dropWhile isSpace (takeWhile notLT r2) = takeWhile notLT (dropWhile isSpace r2)" for r2
    by (rule dropWhile_takeWhile_sub) simp
  show ?thesis
  proof (cases r1)
    case Nil
    then show ?thesis
      unfolding bulletHead_def a r1_def [symmetric] by simp
  next
    case (Cons x r2)
    show ?thesis
    proof (cases "lineTerminator x")
      case True
      then have "x \<notin> set ''*-''"
        using notLT_marker by blast
      with Cons True show ?thesis
        unfolding bulletHead_def a r1_def [symmetric] by simp
    next
      case False
      with Cons show ?thesis
        unfolding bulletHead_def a r1_def [symmetric] by (simp add: b c)
    qed
  qed
qed

lemma bulletHead_Some:
  assumes "bulletHead rest = Some (out, rest')"
  shows "length rest' < length rest \<and> (\<forall>x\<in>set out. \<not> lineTerminator x) \<and> out \<noteq> [] \<and>
        (\<forall>z. bulletHead (out @ z) = None)"
proof -
  define s1 where "s1 = takeWhile isSpace rest"
  define r1 where "r1 = dropWhile isSpace rest"
  have rest: "length rest = length s1 + length r1"
    unfolding s1_def r1_def by (rule length_takeWhile_dropWhile)
  have h: "(case r1 of [] \<Rightarrow> None
      | x # r2 \<Rightarrow> if x \<in> set ''*-'' \<and> takeWhile isSpace r2 \<noteq> []
          then Some (s1 @ BS # CHR ''-'' # takeWhile isSpace r2, dropWhile isSpace r2) else None)
      = Some (out, rest')"
    using assms unfolding bulletHead_def r1_def [symmetric] s1_def [symmetric] .
  then obtain x r2 where r1: "r1 = x # r2"
    by (cases r1) simp_all
  from h r1 have x: "x \<in> set ''*-''" and s2: "takeWhile isSpace r2 \<noteq> []"
    and out: "out = s1 @ BS # CHR ''-'' # takeWhile isSpace r2" and rest': "rest' = dropWhile isSpace r2"
    by (simp_all split: if_splits)
  have "length rest' \<le> length r2"
    unfolding rest' by (rule length_dropWhile_le)
  then have "length rest' < length rest"
    using rest r1 by simp
  moreover have "\<forall>x\<in>set out. \<not> lineTerminator x"
    unfolding out s1_def by (simp add: ball_Un notLT_takeWhile_space)
  moreover have "bulletHead (out @ z) = None" for z
  proof -
    have "dropWhile isSpace (out @ z) = BS # CHR ''-'' # takeWhile isSpace r2 @ z"
      unfolding out s1_def by (simp add: dropWhile_takeWhile_append)
    then show ?thesis
      by (simp add: bulletHead_def)
  qed
  ultimately show ?thesis
    using out by simp
qed

subsection \<open>Numbered lists\<close>

lemma numberHead_local:
  "numberHead (takeWhile notLT rest) =
     map_option (\<lambda>(out, rest'). (out, takeWhile notLT rest')) (numberHead rest)"
proof -
  define r1 where "r1 = dropWhile isSpace rest"
  define r2 where "r2 = dropWhile isDigit r1"
  have a: "dropWhile isSpace (takeWhile notLT rest) = takeWhile notLT r1"
    unfolding r1_def by (rule dropWhile_takeWhile_sub) simp
  have b: "takeWhile isSpace (takeWhile notLT rest) = takeWhile isSpace rest"
    by (rule takeWhile_takeWhile_sub) simp
  have c: "dropWhile isDigit (takeWhile notLT r1) = takeWhile notLT r2"
    unfolding r2_def by (rule dropWhile_takeWhile_sub) (rule notLT_digit)
  have d: "takeWhile isDigit (takeWhile notLT r1) = takeWhile isDigit r1"
    by (rule takeWhile_takeWhile_sub) (rule notLT_digit)
  show ?thesis
  proof (cases r2)
    case Nil
    then show ?thesis
      unfolding numberHead_def a b c d r1_def [symmetric] r2_def [symmetric] by simp
  next
    case (Cons x r3)
    show ?thesis
    proof (cases "lineTerminator x")
      case True
      then have "x \<noteq> CHR ''.''"
        using notLT_simps(5) by blast
      with Cons True show ?thesis
        unfolding numberHead_def a b c d r1_def [symmetric] r2_def [symmetric] by simp
    next
      case False
      with Cons show ?thesis
        unfolding numberHead_def a b c d r1_def [symmetric] r2_def [symmetric] by simp
    qed
  qed
qed

lemma dropWhile_digits_then:
  "\<not> isDigit y \<Longrightarrow> dropWhile isDigit (takeWhile isDigit xs @ y # ys) = y # ys"
  by (simp add: dropWhile_takeWhile_append)

lemma numberHead_Some:
  assumes "numberHead rest = Some (out, rest')"
  shows "length rest' < length rest \<and> (\<forall>x\<in>set out. \<not> lineTerminator x) \<and> out \<noteq> [] \<and>
        (\<forall>z. numberHead (out @ z) = None)"
proof -
  define s1 where "s1 = takeWhile isSpace rest"
  define r1 where "r1 = dropWhile isSpace rest"
  define d where "d = takeWhile isDigit r1"
  define r2 where "r2 = dropWhile isDigit r1"
  have rest: "length rest = length s1 + length r1"
    unfolding s1_def r1_def by (rule length_takeWhile_dropWhile)
  have len1: "length r1 = length d + length r2"
    unfolding d_def r2_def by (rule length_takeWhile_dropWhile)
  have h: "(case r2 of [] \<Rightarrow> None
      | x # r3 \<Rightarrow> if d \<noteq> [] \<and> x = CHR ''.'' then Some (s1 @ d @ [BS, CHR ''.''], r3) else None)
      = Some (out, rest')"
    using assms
    unfolding numberHead_def r1_def [symmetric] s1_def [symmetric] d_def [symmetric] r2_def [symmetric] .
  then obtain x r3 where r2: "r2 = x # r3"
    by (cases r2) simp_all
  from h r2 have x: "x = CHR ''.''" and d: "d \<noteq> []"
    and out: "out = s1 @ d @ [BS, CHR ''.'']" and rest': "rest' = r3"
    by (simp_all split: if_splits)
  have "length rest' < length rest"
    using rest len1 r2 rest' by simp
  moreover have "\<forall>x\<in>set out. \<not> lineTerminator x"
    unfolding out s1_def d_def by (simp add: ball_Un notLT_takeWhile_space notLT_takeWhile_digit)
  moreover have "numberHead (out @ z) = None" for z
  proof -
    from d obtain d1 d' where dd: "d = d1 # d'"
      by (cases d) auto
    then have "d1 \<in> set (takeWhile isDigit r1)"
      unfolding d_def by (metis list.set_intros(1))
    then have "isDigit d1"
      by (rule set_takeWhileD [THEN conjunct2])
    then have "d1 \<noteq> CHR '' ''"
      using not_digit_space(1) by blast
    then have "dropWhile isSpace (out @ z) = d @ BS # CHR ''.'' # z"
      unfolding out s1_def using dd by (simp add: dropWhile_takeWhile_append)
    moreover have "dropWhile isDigit (d @ BS # CHR ''.'' # z) = BS # CHR ''.'' # z"
      unfolding d_def by (rule dropWhile_digits_then) (simp add: isDigit_def)
    ultimately show ?thesis
      by (simp add: numberHead_def)
  qed
  ultimately show ?thesis
    using out by simp
qed

subsection \<open>Headings\<close>

lemma hashRun_local:
  "hashRun (takeWhile notLT r) = map_option (\<lambda>(g, r'). (g, takeWhile notLT r')) (hashRun r)"
proof -
  define r1 where "r1 = dropWhile isHash r"
  have a: "dropWhile isHash (takeWhile notLT r) = takeWhile notLT r1"
    unfolding r1_def by (rule dropWhile_takeWhile_sub) simp
  have b: "takeWhile isHash (takeWhile notLT r) = takeWhile isHash r"
    by (rule takeWhile_takeWhile_sub) simp
  show ?thesis
  proof (cases r1)
    case Nil
    then show ?thesis
      unfolding hashRun_def a b r1_def [symmetric] by simp
  next
    case (Cons x r2)
    show ?thesis
    proof (cases "lineTerminator x")
      case True
      then have "x \<noteq> CHR '' ''"
        using notLT_simps(1) by blast
      with Cons True show ?thesis
        unfolding hashRun_def a b r1_def [symmetric] by simp
    next
      case False
      with Cons show ?thesis
        unfolding hashRun_def a b r1_def [symmetric] by simp
    qed
  qed
qed

lemma listMarker_local:
  "listMarker (takeWhile notLT rest) = map_option (\<lambda>(g, r'). (g, takeWhile notLT r')) (listMarker rest)"
proof -
  define r1 where "r1 = dropWhile isSpace rest"
  have a: "dropWhile isSpace (takeWhile notLT rest) = takeWhile notLT r1"
    unfolding r1_def by (rule dropWhile_takeWhile_sub) simp
  have b: "takeWhile isSpace (takeWhile notLT r2) = takeWhile isSpace r2" for r2
    by (rule takeWhile_takeWhile_sub) simp
  have c: "dropWhile isSpace (takeWhile notLT r2) = takeWhile notLT (dropWhile isSpace r2)" for r2
    by (rule dropWhile_takeWhile_sub) simp
  show ?thesis
  proof (cases r1)
    case Nil
    then show ?thesis
      unfolding listMarker_def a r1_def [symmetric] by simp
  next
    case (Cons x r2)
    show ?thesis
    proof (cases "lineTerminator x")
      case True
      then have "x \<notin> set ''*-''"
        using notLT_marker by blast
      with Cons True show ?thesis
        unfolding listMarker_def a r1_def [symmetric] by simp
    next
      case False
      with Cons show ?thesis
        unfolding listMarker_def a r1_def [symmetric] by (simp add: b c)
    qed
  qed
qed

lemma headingHead_local:
  "headingHead (takeWhile notLT rest) =
     map_option (\<lambda>(out, rest'). (out, takeWhile notLT rest')) (headingHead rest)"
  unfolding headingHead_def listMarker_local hashRun_local
  by (simp add: hashRun_local split: option.split)

lemma hashRun_Some:
  assumes "hashRun r = Some (g, r')"
  shows "length r = length g + length r' \<and> (\<forall>x\<in>set g. \<not> lineTerminator x) \<and> g \<noteq> []"
proof -
  define h where "h = takeWhile isHash r"
  define r1 where "r1 = dropWhile isHash r"
  have len: "length r = length h + length r1"
    unfolding h_def r1_def by (rule length_takeWhile_dropWhile)
  have e: "(case r1 of [] \<Rightarrow> None
      | x # r'' \<Rightarrow> if 1 \<le> length h \<and> length h \<le> 3 \<and> x = CHR '' '' then Some (h @ '' '', r'') else None)
      = Some (g, r')"
    using assms unfolding hashRun_def h_def [symmetric] r1_def [symmetric] .
  then obtain x r'' where r1: "r1 = x # r''"
    by (cases r1) simp_all
  from e r1 have g: "g = h @ '' ''" and r': "r' = r''"
    by (simp_all split: if_splits)
  have "\<forall>x\<in>set g. \<not> lineTerminator x"
    unfolding g h_def by (simp add: ball_Un notLT_takeWhile_hash)
  then show ?thesis
    using len r1 g r' by simp
qed

lemma hashRun_not_hash: "x \<noteq> CHR ''#'' \<Longrightarrow> hashRun (x # xs) = None"
  by (simp add: hashRun_def)

lemma hashRun_Nil [simp]: "hashRun [] = None"
  by (simp add: hashRun_def)

lemma headingHead_Some:
  assumes "headingHead rest = Some (out, rest')"
  shows "length rest' < length rest \<and> (\<forall>x\<in>set out. \<not> lineTerminator x) \<and> out \<noteq> [] \<and>
        (\<forall>z. headingHead (out @ z) = None)"
proof (cases "\<exists>g1 r3 g2. listMarker rest = Some (g1, r3) \<and> hashRun r3 = Some (g2, rest') \<and> out = g1 @ BS # g2")
  case True
  then obtain g1 r3 g2 where lm: "listMarker rest = Some (g1, r3)" and hr: "hashRun r3 = Some (g2, rest')"
    and out: "out = g1 @ BS # g2"
    by blast
  define s1 where "s1 = takeWhile isSpace rest"
  define r1 where "r1 = dropWhile isSpace rest"
  have rest: "length rest = length s1 + length r1"
    unfolding s1_def r1_def by (rule length_takeWhile_dropWhile)
  have e: "(case r1 of [] \<Rightarrow> None
      | x # r2 \<Rightarrow> if length s1 \<le> 2 \<and> x \<in> set ''*-'' \<and> takeWhile isSpace r2 \<noteq> []
          then Some (s1 @ x # takeWhile isSpace r2, dropWhile isSpace r2) else None) = Some (g1, r3)"
    using lm unfolding listMarker_def s1_def [symmetric] r1_def [symmetric] .
  then obtain x r2 where r1: "r1 = x # r2"
    by (cases r1) simp_all
  from e r1 have s1: "length s1 \<le> 2" and x: "x \<in> set ''*-''" and s2: "takeWhile isSpace r2 \<noteq> []"
    and g1: "g1 = s1 @ x # takeWhile isSpace r2" and r3: "r3 = dropWhile isSpace r2"
    by (simp_all split: if_splits)
  from hashRun_Some [OF hr] have len3: "length r3 = length g2 + length rest'"
    and g2: "\<forall>x\<in>set g2. \<not> lineTerminator x"
    by blast+
  have "length r3 \<le> length r2"
    unfolding r3 by (rule length_dropWhile_le)
  then have "length rest' < length rest"
    using rest r1 len3 by simp
  moreover have "\<forall>x\<in>set out. \<not> lineTerminator x"
    unfolding out g1 s1_def using g2 x by (simp add: ball_Un notLT_takeWhile_space notLT_marker)
  moreover have "headingHead (out @ z) = None" for z
  proof -
    have xs: "x \<noteq> CHR '' ''" and xh: "x \<noteq> CHR ''#''"
      using x by auto
    let ?tail = "BS # g2 @ z"
    have dw: "dropWhile isSpace (out @ z) = x # takeWhile isSpace r2 @ ?tail"
      unfolding out g1 s1_def using xs by (simp add: dropWhile_takeWhile_append)
    have tw: "takeWhile isSpace (out @ z) = s1"
      unfolding out g1 s1_def using xs by (simp add: takeWhile_takeWhile_append)
    have "listMarker (out @ z) = Some (s1 @ x # takeWhile isSpace r2, ?tail)"
      unfolding listMarker_def dw tw using s1 x s2
      by (simp add: takeWhile_takeWhile_append dropWhile_takeWhile_append)
    moreover have "hashRun ?tail = None"
      by (rule hashRun_not_hash) simp
    moreover have "hashRun (out @ z) = None"
    proof (cases s1)
      case Nil
      then show ?thesis
        unfolding out g1 using xh by (simp add: hashRun_not_hash)
    next
      case (Cons a s1')
      then have "a \<in> set (takeWhile isSpace rest)"
        unfolding s1_def by (metis list.set_intros(1))
      then have "a = CHR '' ''"
        by (rule set_takeWhileD [THEN conjunct2])
      then show ?thesis
        unfolding out g1 Cons by (simp add: hashRun_not_hash)
    qed
    ultimately show ?thesis
      by (simp add: headingHead_def)
  qed
  ultimately show ?thesis
    using out by simp
next
  case False
  with assms obtain g2 where plain: "hashRun rest = Some (g2, rest')" and out: "out = BS # g2"
    unfolding headingHead_def by (auto split: option.splits)
  from hashRun_Some [OF plain] have len: "length rest = length g2 + length rest'"
    and g2: "\<forall>x\<in>set g2. \<not> lineTerminator x" and ne: "g2 \<noteq> []"
    by blast+
  from ne have "0 < length g2"
    by simp
  with len have "length rest' < length rest"
    by arith
  moreover have "\<forall>x\<in>set out. \<not> lineTerminator x"
    using g2 out by simp
  moreover have "headingHead (out @ z) = None" for z
  proof -
    have "listMarker (out @ z) = None"
      unfolding out by (simp add: listMarker_def)
    moreover have "hashRun (out @ z) = None"
      unfolding out by (simp add: hashRun_not_hash)
    ultimately show ?thesis
      by (simp add: headingHead_def)
  qed
  ultimately show ?thesis
    using out by simp
qed

lemma not_lineStart_rev:
  "w \<noteq> [] \<Longrightarrow> \<forall>x\<in>set w. \<not> lineTerminator x \<Longrightarrow> \<not> lineStart (rev w @ p)"
  by (cases w rule: rev_cases) simp_all

lemma group_simps [simp]:
  "group ((k, v) # c) k = v"
  "k \<noteq> j \<Longrightarrow> group ((j, v) # c) k = group c k"
  "group [] k = []"
  by (simp_all add: group_def)

subsection \<open>The three line-anchored escapers as line scans\<close>

lemma escapeBulletedList_lineScan:
  "replaceFrom True bulletedListRegex
     (\<lambda>s matched c. (getSubstitution 2 matched c (''$1'' @ BS # ''-$2''), s)) () pre rest
   = lineScan bulletHead (lineStart pre) rest"
proof (rule replaceFrom_lineScan)
  fix pre rest
  show "\<not> lineStart pre \<Longrightarrow> matchAt True bulletedListRegex pre rest = None"
    by (simp add: matchAt_bulleted)
  show "lineStart pre \<Longrightarrow> bulletHead rest = None \<Longrightarrow> matchAt True bulletedListRegex pre rest = None"
    unfolding matchAt_bulleted bulletHead_def
    by (cases "dropWhile isSpace rest") (simp_all split: if_splits del: dropWhile_eq_Nil_conv)
next
  fix pre rest out rest'
  assume ls: "lineStart pre" and h: "bulletHead rest = Some (out, rest')"
  define s1 where "s1 = takeWhile isSpace rest"
  define r1 where "r1 = dropWhile isSpace rest"
  have e: "(case r1 of [] \<Rightarrow> None
      | x # r2 \<Rightarrow> if x \<in> set ''*-'' \<and> takeWhile isSpace r2 \<noteq> []
          then Some (s1 @ BS # CHR ''-'' # takeWhile isSpace r2, dropWhile isSpace r2) else None)
      = Some (out, rest')"
    using h unfolding bulletHead_def r1_def [symmetric] s1_def [symmetric] .
  then obtain x r2 where r1: "r1 = x # r2"
    by (cases r1) simp_all
  from e r1 have x: "x \<in> set ''*-''" and s2: "takeWhile isSpace r2 \<noteq> []"
    and out: "out = s1 @ BS # CHR ''-'' # takeWhile isSpace r2" and rest': "rest' = dropWhile isSpace r2"
    by (simp_all split: if_splits)
  let ?pre' = "rev (takeWhile isSpace r2) @ x # rev s1 @ pre"
  let ?c = "[(2, takeWhile isSpace r2), (1, s1)]"
  have "matchAt True bulletedListRegex pre rest = Some (?pre', rest', ?c)"
    unfolding matchAt_bulleted r1_def [symmetric] s1_def [symmetric] using ls r1 x s2 rest' by simp
  moreover have "length rest' < length rest"
    using bulletHead_Some [OF h] by blast
  moreover have "\<not> lineStart ?pre'"
    using s2 by (rule not_lineStart_rev) (rule notLT_takeWhile_space)
  moreover have "fst (getSubstitution 2 (take (length rest - length rest') rest) ?c (''$1'' @ BS # ''-$2''), ()) = out"
    unfolding out getSubstitution_templates by simp
  ultimately show "\<exists>pre' c. matchAt True bulletedListRegex pre rest = Some (pre', rest', c) \<and>
      length rest' < length rest \<and> \<not> lineStart pre' \<and>
      fst (getSubstitution 2 (take (length rest - length rest') rest) c (''$1'' @ BS # ''-$2''), ()) = out"
    by blast
qed

lemma escapeBulletedList_scan: "escapeBulletedList t = lineScan bulletHead True t"
proof -
  have g: "length (groups bulletedListRegex) = 2"
    by (simp add: bulletedListRegex_def)
  show ?thesis
    unfolding escapeBulletedList_def replaceTemplate_def replace_def g escapeBulletedList_lineScan
    by (simp add: lineStart_def)
qed

lemma escapeNumberedList_lineScan:
  "replaceFrom True numberedListRegex
     (\<lambda>s matched c. (getSubstitution 1 matched c (''$1'' @ BS # ''.''), s)) () pre rest
   = lineScan numberHead (lineStart pre) rest"
proof (rule replaceFrom_lineScan)
  fix pre rest
  show "\<not> lineStart pre \<Longrightarrow> matchAt True numberedListRegex pre rest = None"
    by (simp add: matchAt_numbered)
  show "lineStart pre \<Longrightarrow> numberHead rest = None \<Longrightarrow> matchAt True numberedListRegex pre rest = None"
    unfolding matchAt_numbered numberHead_def
    by (cases "dropWhile isDigit (dropWhile isSpace rest)") (simp_all split: if_splits del: dropWhile_eq_Nil_conv)
next
  fix pre rest out rest'
  assume ls: "lineStart pre" and h: "numberHead rest = Some (out, rest')"
  define s1 where "s1 = takeWhile isSpace rest"
  define r1 where "r1 = dropWhile isSpace rest"
  define d where "d = takeWhile isDigit r1"
  define r2 where "r2 = dropWhile isDigit r1"
  have e: "(case r2 of [] \<Rightarrow> None
      | x # r3 \<Rightarrow> if d \<noteq> [] \<and> x = CHR ''.'' then Some (s1 @ d @ [BS, CHR ''.''], r3) else None)
      = Some (out, rest')"
    using h
    unfolding numberHead_def r1_def [symmetric] s1_def [symmetric] d_def [symmetric] r2_def [symmetric] .
  then obtain x r3 where r2: "r2 = x # r3"
    by (cases r2) simp_all
  from e r2 have x: "x = CHR ''.''" and d: "d \<noteq> []"
    and out: "out = s1 @ d @ [BS, CHR ''.'']" and rest': "rest' = r3"
    by (simp_all split: if_splits)
  let ?pre' = "x # rev d @ rev s1 @ pre"
  let ?c = "[(1, s1 @ d)]"
  have "matchAt True numberedListRegex pre rest = Some (?pre', rest', ?c)"
    unfolding matchAt_numbered r1_def [symmetric] s1_def [symmetric] d_def [symmetric] r2_def [symmetric]
    using ls r2 x d rest' by simp
  moreover have "length rest' < length rest"
    using numberHead_Some [OF h] by blast
  moreover have "\<not> lineStart ?pre'"
    using x by simp
  moreover have "fst (getSubstitution 1 (take (length rest - length rest') rest) ?c (''$1'' @ BS # ''.''), ()) = out"
    unfolding out getSubstitution_templates by simp
  ultimately show "\<exists>pre' c. matchAt True numberedListRegex pre rest = Some (pre', rest', c) \<and>
      length rest' < length rest \<and> \<not> lineStart pre' \<and>
      fst (getSubstitution 1 (take (length rest - length rest') rest) c (''$1'' @ BS # ''.''), ()) = out"
    by blast
qed

lemma escapeNumberedList_scan: "escapeNumberedList t = lineScan numberHead True t"
proof -
  have g: "length (groups numberedListRegex) = 1"
    by (simp add: numberedListRegex_def)
  show ?thesis
    unfolding escapeNumberedList_def replaceTemplate_def replace_def g escapeNumberedList_lineScan
    by (simp add: lineStart_def)
qed

lemma escapeHeading_lineScan:
  "replaceFrom True headingRegex
     (\<lambda>s matched c. (getSubstitution 2 matched c (''$1'' @ BS # ''$2''), s)) () pre rest
   = lineScan headingHead (lineStart pre) rest"
proof (rule replaceFrom_lineScan)
  fix pre rest
  show "\<not> lineStart pre \<Longrightarrow> matchAt True headingRegex pre rest = None"
    by (simp add: matchAt_heading)
  show "lineStart pre \<Longrightarrow> headingHead rest = None \<Longrightarrow> matchAt True headingRegex pre rest = None"
    unfolding matchAt_heading headingHead_def by (auto split: option.splits prod.splits)
next
  fix pre rest out rest'
  assume ls: "lineStart pre" and h: "headingHead rest = Some (out, rest')"
  have l: "length rest' < length rest"
    using headingHead_Some [OF h] by blast
  show "\<exists>pre' c. matchAt True headingRegex pre rest = Some (pre', rest', c) \<and>
      length rest' < length rest \<and> \<not> lineStart pre' \<and>
      fst (getSubstitution 2 (take (length rest - length rest') rest) c (''$1'' @ BS # ''$2''), ()) = out"
  proof (cases "\<exists>g1 r3 g2. listMarker rest = Some (g1, r3) \<and> hashRun r3 = Some (g2, rest') \<and> out = g1 @ BS # g2")
    case True
    then obtain g1 r3 g2 where lm: "listMarker rest = Some (g1, r3)" and hr: "hashRun r3 = Some (g2, rest')"
      and out: "out = g1 @ BS # g2"
      by blast
    let ?pre' = "rev g2 @ rev g1 @ pre"
    let ?c = "[(2, g2), (1, g1)]"
    from hashRun_Some [OF hr] have g2: "\<forall>x\<in>set g2. \<not> lineTerminator x" "g2 \<noteq> []"
      by blast+
    have "matchAt True headingRegex pre rest = Some (?pre', rest', ?c)"
      unfolding matchAt_heading using ls lm hr by simp
    moreover have "\<not> lineStart ?pre'"
      using g2(2) g2(1) by (rule not_lineStart_rev)
    moreover have "fst (getSubstitution 2 (take (length rest - length rest') rest) ?c (''$1'' @ BS # ''$2''), ()) = out"
      unfolding out getSubstitution_templates by simp
    ultimately show ?thesis
      using l by blast
  next
    case False
    with h obtain g2 where plain: "hashRun rest = Some (g2, rest')" and out: "out = BS # g2"
      and no: "listMarker rest = None \<or> (\<exists>g1 r3. listMarker rest = Some (g1, r3) \<and> hashRun r3 = None)"
      unfolding headingHead_def by (auto split: option.splits)
    let ?pre' = "rev g2 @ pre"
    let ?c = "[(2, g2)]"
    from hashRun_Some [OF plain] have g2: "\<forall>x\<in>set g2. \<not> lineTerminator x" "g2 \<noteq> []"
      by blast+
    have "matchAt True headingRegex pre rest = Some (?pre', rest', ?c)"
      unfolding matchAt_heading using ls plain no by auto
    moreover have "\<not> lineStart ?pre'"
      using g2(2) g2(1) by (rule not_lineStart_rev)
    moreover have "fst (getSubstitution 2 (take (length rest - length rest') rest) ?c (''$1'' @ BS # ''$2''), ()) = out"
      unfolding out getSubstitution_templates by simp
    ultimately show ?thesis
      using l by blast
  qed
qed

lemma escapeHeading_scan: "escapeHeading t = lineScan headingHead True t"
proof -
  have g: "length (groups headingRegex) = 2"
    by (simp add: headingRegex_def)
  show ?thesis
    unfolding escapeHeading_def replaceTemplate_def replace_def g escapeHeading_lineScan
    by (simp add: lineStart_def)
qed

lemma head_local_None:
  assumes "\<And>rest. h (takeWhile notLT rest) = map_option (\<lambda>(out, rest'). (out, takeWhile notLT rest')) (h rest)"
  shows "(h rest = None) = (h (takeWhile notLT rest) = None)"
  by (simp add: assms)

lemma escapeBulletedList_idem: "escapeBulletedList (escapeBulletedList t) = escapeBulletedList t"
  unfolding escapeBulletedList_scan
  by (rule lineScan_idem) (use bulletHead_Some head_local_None [of bulletHead, OF bulletHead_local] in blast)+

lemma escapeNumberedList_idem: "escapeNumberedList (escapeNumberedList t) = escapeNumberedList t"
  unfolding escapeNumberedList_scan
  by (rule lineScan_idem) (use numberHead_Some head_local_None [of numberHead, OF numberHead_local] in blast)+

lemma escapeHeading_idem: "escapeHeading (escapeHeading t) = escapeHeading t"
  unfolding escapeHeading_scan
  by (rule lineScan_idem) (use headingHead_Some head_local_None [of headingHead, OF headingHead_local] in blast)+

section \<open>Shapes of matches, and the branches of the composer\<close>

subsection \<open>What the inline-code patterns match\<close>

lemma mt_lookaround_shape:
  "st' \<in> set (mt ml (Ahead r) fwd (pre, rest, c)) \<Longrightarrow> fst st' = pre \<and> fst (snd st') = rest"
  "st' \<in> set (mt ml (Behind r) fwd (pre, rest, c)) \<Longrightarrow> fst st' = pre \<and> fst (snd st') = rest"
  by (auto split: list.splits)

lemma matchAt_inlineSplit_shape:
  assumes "matchAt False inlineSplitRegex pre rest = Some (pre', rest', c)"
  shows "rest = CHR ''`'' # rest'"
proof -
  have "(pre', rest', c) \<in> set (mt False inlineSplitRegex True (pre, rest, []))"
    using assms by (auto simp add: matchAt_def split: list.splits)
  then obtain s1 s2 where s1: "s1 \<in> set (mt False (Behind (Alt Bol (NCls ''`''))) True (pre, rest, []))"
    and s2: "s2 \<in> set (mt False (Chr (CHR ''`'')) True s1)"
    and s3: "(pre', rest', c) \<in> set (mt False (Ahead (Alt (NCls ''`'') Eol)) True s2)"
    unfolding inlineSplitRegex_def by (simp del: mt.simps(12,13)) blast
  obtain c1 where c1: "s1 = (pre, rest, c1)"
    using mt_lookaround_shape(2) [OF s1] by (cases s1) simp
  obtain r2 where r2: "rest = CHR ''`'' # r2" "s2 = (CHR ''`'' # pre, r2, c1)"
    using s2 unfolding c1 by (cases rest) (simp_all split: if_splits)
  show ?thesis
    using mt_lookaround_shape(1) [OF s3 [unfolded r2]] r2 by simp
qed

lemma matchAt_inlineCode_shape:
  assumes "matchAt False inlineCodeRegex pre rest = Some (pre', rest', c)"
  shows "rest = CHR ''`'' # rest' \<or> rest = CHR ''`'' # CHR ''`'' # rest'"
proof -
  have "(pre', rest', c) \<in> set (mt False inlineCodeRegex True (pre, rest, []))"
    using assms by (auto simp add: matchAt_def split: list.splits)
  then obtain s1 s2 s3 where s1: "s1 \<in> set (mt False (Behind (Alt Bol (NCls ''`''))) True (pre, rest, []))"
    and s2: "s2 \<in> set (mt False (Chr (CHR ''`'')) True s1)"
    and s3: "s3 \<in> set (mt False (Opt (Chr (CHR ''`''))) True s2)"
    and s4: "(pre', rest', c) \<in> set (mt False (Ahead (Alt (NCls ''`'') Eol)) True s3)"
    unfolding inlineCodeRegex_def by (simp del: mt.simps(10,12,13)) blast
  obtain c1 where c1: "s1 = (pre, rest, c1)"
    using mt_lookaround_shape(2) [OF s1] by (cases s1) simp
  obtain r2 where r2: "rest = CHR ''`'' # r2" "s2 = (CHR ''`'' # pre, r2, c1)"
    using s2 unfolding c1 by (cases rest) (simp_all split: if_splits)
  have "fst (snd s3) = r2 \<or> r2 = CHR ''`'' # fst (snd s3)"
    using s3 unfolding r2 by (cases r2) (auto simp add: rep_opt split: if_splits)
  moreover have "fst (snd s3) = rest'"
    using s4 mt_lookaround_shape(1) [of "(pre', rest', c)" False _ True "fst s3" "fst (snd s3)" "snd (snd s3)"]
    by simp
  ultimately show ?thesis
    using r2 by auto
qed

subsection \<open>Splitting at single backticks and joining again\<close>

lemma splitRegexFrom_not_Nil: "splitRegexFrom ml r pre piece rest \<noteq> []"
proof (induction rest arbitrary: pre piece rule: length_induct)
  case (1 rest)
  show ?case
  proof (cases rest)
    case Nil
    then show ?thesis
      by (subst splitRegexFrom.simps) simp
  next
    case (Cons x xs)
    have "splitRegexFrom ml r (x # pre) q xs \<noteq> []" for q
      using 1 Cons by simp
    then show ?thesis
      using Cons by (subst splitRegexFrom.simps) (auto split: option.splits)
  qed
qed

lemma join_splitRegexFrom:
  assumes "\<And>pre rest pre' rest' c. matchAt ml r pre rest = Some (pre', rest', c) \<Longrightarrow>
             sep \<noteq> [] \<and> rest = sep @ rest'"
  shows "join sep (splitRegexFrom ml r pre piece rest) = piece @ rest"
proof (induction rest arbitrary: pre piece rule: length_induct)
  case (1 rest)
  show ?case
  proof (cases rest)
    case Nil
    then show ?thesis
      by (subst splitRegexFrom.simps) simp
  next
    case (Cons x xs)
    show ?thesis
    proof (cases "matchAt ml r pre rest")
      case None
      then have "splitRegexFrom ml r pre piece rest = splitRegexFrom ml r (x # pre) (piece @ [x]) xs"
        using Cons by (subst splitRegexFrom.simps) simp
      then show ?thesis
        using 1 Cons by simp
    next
      case (Some st)
      obtain pre' rest' c where st: "st = (pre', rest', c)"
        by (cases st)
      have m: "sep \<noteq> [] \<and> rest = sep @ rest'"
        using assms Some st by blast
      then have l: "length rest' < length rest"
        by (metis add_diff_cancel_right' diff_less length_append length_greater_0_conv zero_less_diff
            less_add_same_cancel2)
      have "splitRegexFrom ml r pre piece rest = piece # splitRegexFrom ml r pre' [] rest'"
        using Some st l Cons by (subst splitRegexFrom.simps) simp
      moreover have "join sep (splitRegexFrom ml r pre' [] rest') = rest'"
        using 1 l by simp
      ultimately show ?thesis
        using m by (simp add: join_Cons splitRegexFrom_not_Nil)
    qed
  qed
qed

lemma join_splitRegex_inline: "join ''`'' (splitRegex False inlineSplitRegex t) = t"
proof (cases t)
  case Nil
  then show ?thesis
    by (simp add: splitRegex_def split: option.split)
next
  case (Cons x xs)
  have "join ''`'' (splitRegexFrom False inlineSplitRegex [] [] t) = [] @ t"
    by (rule join_splitRegexFrom) (use matchAt_inlineSplit_shape in auto)
  then show ?thesis
    using Cons by (simp add: splitRegex_def)
qed

text \<open>
  A relation between an input and an output that holds for the escapers, holds for the
  composer, if joining respects it.
\<close>

lemma list_all2_enumerate:
  assumes "\<And>p. p \<in> set (enumerate n xs) \<Longrightarrow> R (snd p) (g p)"
  shows "list_all2 R xs (map g (enumerate n xs))"
proof -
  have "list_all2 R (map snd (enumerate n xs)) (map g (enumerate n xs))"
    unfolding list_all2_map1 list_all2_map2 using assms by (simp add: list_all2_same)
  then show ?thesis
    by simp
qed

lemma escapeMarkdown_branches:
  assumes seq: "\<And>t opts. codeBlockContent opts \<Longrightarrow> inlineCodeContent opts \<Longrightarrow> C opts \<Longrightarrow>
                  R t (escapeMarkdown t opts)"
    and refl: "\<And>t. R t t"
    and joins: "\<And>sep sep' xs ys. R sep sep' \<Longrightarrow> list_all2 R xs ys \<Longrightarrow> R (join sep xs) (join sep' ys)"
    and fence: "R ''```'' (BS # ''`'' @ BS # ''`'' @ BS # ''`'')"
    and tick: "R ''`'' (BS # ''`'')"
    and cb: "\<And>opts. C opts \<Longrightarrow> C (codeBlockBranchOptions opts)"
    and ic: "\<And>opts. C opts \<Longrightarrow> C (inlineCodeBranchOptions opts)"
    and C: "C opts"
  shows "R t (escapeMarkdown t opts)"
proof -
  have inline: "R t (escapeMarkdown t opts)" if "codeBlockContent opts" and "C opts" for t opts
  proof (cases "inlineCodeContent opts")
    case True
    with that show ?thesis
      by (simp add: seq)
  next
    case False
    define array where "array = splitRegex False inlineSplitRegex t"
    define g where "g = (\<lambda>(index, subString).
               if index mod 2 \<noteq> 0 \<and> index \<noteq> length array - 1
               then subString
               else escapeMarkdown subString (inlineCodeBranchOptions opts))"
    have "R (snd p) (g p)" for p
      unfolding g_def using seq [OF _ _ ic [OF that(2)]] refl by (cases p) simp
    then have "list_all2 R array (map g (enumerate 0 array))"
      by (intro list_all2_enumerate)
    moreover have "R ''`'' (if inlineCode opts then BS # ''`'' else ''`'')"
      using tick refl by simp
    ultimately have "R (join ''`'' array) (join (if inlineCode opts then BS # ''`'' else ''`'') (map g (enumerate 0 array)))"
      by (intro joins)
    then show ?thesis
      unfolding escapeMarkdown_inlineCode_branch [OF that(1) False] array_def [symmetric] g_def [symmetric]
      by (simp add: array_def join_splitRegex_inline)
  qed
  show ?thesis
  proof (cases "codeBlockContent opts")
    case True
    with C show ?thesis
      by (simp add: inline)
  next
    case False
    define array where "array = split ''```'' t"
    define g where "g = (\<lambda>(index, subString).
               if index mod 2 \<noteq> 0 \<and> index \<noteq> length array - 1 then subString
               else escapeMarkdown subString (codeBlockBranchOptions opts))"
    have "R (snd p) (g p)" for p
      unfolding g_def using inline [OF _ cb [OF C]] refl by (cases p) simp
    then have "list_all2 R array (map g (enumerate 0 array))"
      by (intro list_all2_enumerate)
    moreover have "R ''```'' (if codeBlock opts then BS # ''`'' @ BS # ''`'' @ BS # ''`'' else ''```'')"
      using fence refl by simp
    ultimately have "R (join ''```'' array)
        (join (if codeBlock opts then BS # ''`'' @ BS # ''`'' @ BS # ''`'' else ''```'') (map g (enumerate 0 array)))"
      by (intro joins)
    then show ?thesis
      unfolding escapeMarkdown_codeBlock_branch [OF False] array_def [symmetric] g_def [symmetric]
      by (simp add: array_def join_split)
  qed
qed

subsection \<open>What the line-anchored patterns replace\<close>

lemma bulletHead_shape:
  assumes "bulletHead rest = Some (out, rest')"
  shows "\<exists>u x v. rest = u @ x # v @ rest' \<and> out = u @ BS # CHR ''-'' # v
           \<and> (x = CHR ''*'' \<or> x = CHR ''-'') \<and> u = takeWhile isSpace rest"
proof -
  obtain x r2 where d: "dropWhile isSpace rest = x # r2"
    using assms by (auto simp add: bulletHead_def split: list.splits)
  have x: "x = CHR ''*'' \<or> x = CHR ''-''"
    and out: "out = takeWhile isSpace rest @ BS # CHR ''-'' # takeWhile isSpace r2"
    and rest': "rest' = dropWhile isSpace r2"
    using assms unfolding bulletHead_def d by (auto split: if_splits)
  have "rest = takeWhile isSpace rest @ x # takeWhile isSpace r2 @ dropWhile isSpace r2"
    using takeWhile_dropWhile_id [of isSpace rest] unfolding d by simp
  with x out rest' show ?thesis
    by blast
qed

lemma numberHead_shape:
  assumes "numberHead rest = Some (out, rest')"
  shows "\<exists>u. rest = u @ CHR ''.'' # rest' \<and> out = u @ [BS, CHR ''.'']"
proof -
  define r1 where "r1 = dropWhile isSpace rest"
  obtain x r3 where d: "dropWhile isDigit r1 = x # r3"
    using assms unfolding numberHead_def r1_def by (auto split: list.splits)
  have x: "x = CHR ''.''"
    and out: "out = (takeWhile isSpace rest @ takeWhile isDigit r1) @ [BS, CHR ''.'']"
    and rest': "rest' = r3"
    using assms unfolding numberHead_def r1_def [symmetric] d by (auto split: if_splits)
  have "r1 = takeWhile isDigit r1 @ x # r3"
    using takeWhile_dropWhile_id [of isDigit r1] unfolding d by simp
  then have "rest = (takeWhile isSpace rest @ takeWhile isDigit r1) @ x # r3"
    using takeWhile_dropWhile_id [of isSpace rest] unfolding r1_def [symmetric] by simp
  with x out rest' show ?thesis
    by blast
qed

lemma listMarker_shape:
  assumes "listMarker rest = Some (g, rest')"
  shows "rest = g @ rest'"
proof -
  obtain x r2 where d: "dropWhile isSpace rest = x # r2"
    using assms by (auto simp add: listMarker_def split: list.splits)
  have g: "g = takeWhile isSpace rest @ x # takeWhile isSpace r2"
    and rest': "rest' = dropWhile isSpace r2"
    using assms unfolding listMarker_def d by (auto split: if_splits)
  have "rest = takeWhile isSpace rest @ x # takeWhile isSpace r2 @ dropWhile isSpace r2"
    using takeWhile_dropWhile_id [of isSpace rest] unfolding d by simp
  with g rest' show ?thesis
    by simp
qed

lemma hashRun_shape:
  assumes "hashRun r = Some (g, r')"
  shows "\<exists>v. r = CHR ''#'' # v @ r' \<and> g = CHR ''#'' # v"
proof -
  obtain x r2 where d: "dropWhile isHash r = x # r2"
    using assms by (auto simp add: hashRun_def split: list.splits)
  have n: "takeWhile isHash r \<noteq> []" and x: "x = CHR '' ''"
    and g: "g = takeWhile isHash r @ '' ''"
    and r': "r' = r2"
    using assms unfolding hashRun_def d by (auto split: if_splits)
  from n obtain y v where tw: "takeWhile isHash r = y # v"
    by (cases "takeWhile isHash r") auto
  have "y \<in> set (takeWhile isHash r)"
    unfolding tw by simp
  then have y: "y = CHR ''#''"
    by (metis set_takeWhileD)
  have "r = takeWhile isHash r @ x # r2"
    using takeWhile_dropWhile_id [of isHash r] unfolding d by simp
  with g r' x y tw show ?thesis
    by simp
qed

lemma headingHead_shape:
  assumes "headingHead rest = Some (out, rest')"
  shows "\<exists>u v. rest = u @ CHR ''#'' # v @ rest' \<and> out = u @ BS # CHR ''#'' # v"
proof (cases "\<exists>g1 r3 g2. listMarker rest = Some (g1, r3) \<and> hashRun r3 = Some (g2, rest') \<and> out = g1 @ BS # g2")
  case True
  then obtain g1 r3 g2 where lm: "listMarker rest = Some (g1, r3)" and hr: "hashRun r3 = Some (g2, rest')"
    and out: "out = g1 @ BS # g2"
    by blast
  from hashRun_shape [OF hr] obtain v where "r3 = CHR ''#'' # v @ rest'" "g2 = CHR ''#'' # v"
    by blast
  with listMarker_shape [OF lm] out show ?thesis
    by blast
next
  case False
  then obtain g2 where hr: "hashRun rest = Some (g2, rest')" and out: "out = BS # g2"
    using assms unfolding headingHead_def by (auto split: option.splits)
  from hashRun_shape [OF hr] obtain v where "rest = CHR ''#'' # v @ rest'" "g2 = CHR ''#'' # v"
    by blast
  with out have "rest = [] @ CHR ''#'' # v @ rest' \<and> out = [] @ BS # CHR ''#'' # v"
    by simp
  then show ?thesis
    by blast
qed

section \<open>Where a match ends\<close>

text \<open>A match is a prefix of the text from its position on.\<close>

lemma step_suffix:
  "st' \<in> set (step True P st) \<Longrightarrow> \<exists>x. fst (snd st) = x # fst (snd st')"
  by (cases "(True, P, st)" rule: step.cases) (auto split: if_splits)

lemma rep_suffix:
  assumes m: "\<And>s s'. s' \<in> set (m s) \<Longrightarrow> \<exists>w. fst (snd s) = w @ fst (snd s')"
  shows "st' \<in> set (rep True m lo hi st) \<Longrightarrow> \<exists>w. fst (snd st) = w @ fst (snd st')"
  using m
proof (induction True m lo hi st rule: rep.induct)
  case (1 m lo hi st)
  show ?case
  proof (cases "hi = Some 0")
    case True
    with "1.prems"(1) have "st' = st"
      by simp
    then show ?thesis
      by simp
  next
    case False
    from "1.prems"(1) have "st' \<in> set (concat (map (\<lambda>s.
               if remaining True s < remaining True st
                  \<or> (0 < lo \<and> remaining True s = remaining True st)
               then rep True m (lo - 1) (map_option (\<lambda>h. h - 1) hi) s
               else []) (m st))) \<or> st' = st"
      using False by (subst (asm) rep.simps) (auto split: if_splits)
    then show ?thesis
    proof
      assume "st' = st"
      then show ?thesis
        by simp
    next
      assume "st' \<in> set (concat (map (\<lambda>s.
               if remaining True s < remaining True st
                  \<or> (0 < lo \<and> remaining True s = remaining True st)
               then rep True m (lo - 1) (map_option (\<lambda>h. h - 1) hi) s
               else []) (m st)))"
      then obtain s where s: "s \<in> set (m st)"
        and c: "remaining True s < remaining True st \<or> (0 < lo \<and> remaining True s = remaining True st)"
        and st': "st' \<in> set (rep True m (lo - 1) (map_option (\<lambda>h. h - 1) hi) s)"
        by (auto split: if_splits)
      from "1.hyps" [OF False s c st' "1.prems"(2)] obtain w2 where "fst (snd s) = w2 @ fst (snd st')"
        by blast
      moreover from "1.prems"(2) [OF s] obtain w1 where "fst (snd st) = w1 @ fst (snd s)"
        by blast
      ultimately have "fst (snd st) = (w1 @ w2) @ fst (snd st')"
        by simp
      then show ?thesis
        by blast
    qed
  qed
qed

lemma clear_rest [simp]: "fst (snd (clear ks st)) = fst (snd st)"
  by (cases st) simp

lemma mt_suffix:
  "st' \<in> set (mt ml r True st) \<Longrightarrow> \<exists>w. fst (snd st) = w @ fst (snd st')"
proof (induction r arbitrary: st st')
  case (Seq r1 r2)
  from Seq.prems obtain s where s: "s \<in> set (mt ml r1 True st)" and st': "st' \<in> set (mt ml r2 True s)"
    by auto
  from Seq.IH(1) [OF s] Seq.IH(2) [OF st'] obtain w1 w2 where
    "fst (snd st) = w1 @ fst (snd s)" "fst (snd s) = w2 @ fst (snd st')"
    by blast
  then have "fst (snd st) = (w1 @ w2) @ fst (snd st')"
    by simp
  then show ?case
    by blast
next
  case (Alt r1 r2)
  from Alt.prems have "st' \<in> set (mt ml r1 True st) \<or> st' \<in> set (mt ml r2 True st)"
    by simp
  then show ?case
    using Alt.IH by blast
next
  case (Rep lo hi r)
  have "\<exists>w. fst (snd s) = w @ fst (snd s')" if "s' \<in> set (mt ml r True (clear (groups r) s))" for s s'
    using Rep.IH [OF that] by simp
  from rep_suffix [of "\<lambda>s. mt ml r True (clear (groups r) s)", OF this] Rep.prems show ?case
    by simp
next
  case (Grp k r)
  from Grp.prems obtain s where s: "s \<in> set (mt ml r True st)" and st': "st' = capture True k st s"
    by auto
  have "fst (snd st') = fst (snd s)"
    unfolding st' by (cases st, cases s) simp
  with Grp.IH [OF s] show ?case
    by simp
next
  case (Ahead r)
  then have "fst (snd st') = fst (snd st)"
    by (auto split: list.splits)
  then show ?case
    by simp
next
  case (Behind r)
  then have "fst (snd st') = fst (snd st)"
    by (auto split: list.splits)
  then show ?case
    by simp
qed (auto dest: step_suffix split: if_splits)

lemma matchAt_suffix:
  assumes "matchAt ml r pre rest = Some (pre', rest', c)"
  shows "\<exists>w. rest = w @ rest'"
proof -
  have "(pre', rest', c) \<in> set (mt ml r True (pre, rest, []))"
    using assms by (auto simp add: matchAt_def split: list.splits)
  from mt_suffix [OF this] show ?thesis
    by simp
qed

lemma matchAt_maskedLink_shape:
  assumes "matchAt True maskedLinkRegex pre rest = Some (pre', rest', c)"
  shows "\<exists>w. rest = CHR ''['' # w @ rest'"
proof -
  have "(pre', rest', c) \<in> set (mt True maskedLinkRegex True (pre, rest, []))"
    using assms by (auto simp add: matchAt_def split: list.splits)
  then obtain s where s: "s \<in> set (mt True (Chr (CHR ''['')) True (pre, rest, []))"
    and st': "(pre', rest', c) \<in> set (mt True (Seq (Plus Dot)
         (Seq (Chr (CHR '']''))
           (Seq (Chr (CHR ''(''))
             (Seq (Plus Dot) (Chr (CHR '')'')))))) True s)"
    unfolding maskedLinkRegex_def by (simp del: mt.simps(1,10)) blast
  from s obtain r where r: "rest = CHR ''['' # r" "fst (snd s) = r"
    by (cases rest) (auto split: if_splits)
  from mt_suffix [OF st'] r show ?thesis
    by auto
qed

section \<open>The code-block branch (claim C1)\<close>

text \<open>
  Claim C1. When \<^verbatim>\<open>escapeMarkdown\<close> is called with \<^verbatim>\<open>codeBlockContent = false\<close>, the text is
  split on the occurrences of the fence \<^verbatim>\<open>```\<close> (so joining the regions with the fence gives
  the text back); the result is made of one output per region; the output of a region is
  the region itself exactly when its index is odd and it is not the last region, and the
  recursive escape of the region otherwise; and the outputs are joined with \<^verbatim>\<open>\`\`\`\<close> when
  \<^verbatim>\<open>codeBlock\<close> is set and with \<^verbatim>\<open>```\<close> otherwise.
\<close>

theorem escapeMarkdown_codeBlockContent_regions:
  assumes "\<not> codeBlockContent opts"
  shows "join ''```'' (split ''```'' text) = text \<and>
    (\<exists>outs. length outs = length (split ''```'' text) \<and>
       (\<forall>i < length (split ''```'' text).
          outs ! i =
            (if odd i \<and> i \<noteq> length (split ''```'' text) - 1 then split ''```'' text ! i
             else escapeMarkdown (split ''```'' text ! i) (codeBlockBranchOptions opts))) \<and>
       escapeMarkdown text opts =
         join (if codeBlock opts then BS # ''`'' @ BS # ''`'' @ BS # ''`'' else ''```'') outs)"
proof -
  let ?array = "split ''```'' text"
  let ?outs = "map (\<lambda>(index, subString).
               if index mod 2 \<noteq> 0 \<and> index \<noteq> length ?array - 1 then subString
               else escapeMarkdown subString (codeBlockBranchOptions opts))
          (enumerate 0 ?array)"
  have "length ?outs = length ?array"
    by simp
  moreover have "\<forall>i < length ?array. ?outs ! i =
            (if odd i \<and> i \<noteq> length ?array - 1 then ?array ! i
             else escapeMarkdown (?array ! i) (codeBlockBranchOptions opts))"
    by (simp add: nth_enumerate_eq odd_iff_mod_2_eq_one)
  moreover have "escapeMarkdown text opts =
         join (if codeBlock opts then BS # ''`'' @ BS # ''`'' @ BS # ''`'' else ''```'') ?outs"
    using assms by (rule escapeMarkdown_codeBlock_branch)
  ultimately show ?thesis
    using join_split by blast
qed

text \<open>
  The theorem at the text \<^verbatim>\<open>a```*b*```*c*\<close> with the default options but
  \<^verbatim>\<open>codeBlockContent = false\<close>: three regions, the middle one kept, the last one escaped.
\<close>

theorem escapeMarkdown_codeBlockContent_regions_witness:
  "\<not> codeBlockContent (defaults\<lparr>codeBlockContent := False\<rparr>) \<and>
   split ''```'' ''a```*b*```*c*'' = [''a'', ''*b*'', ''*c*''] \<and>
   (\<exists>outs. length outs = 3 \<and> outs ! 1 = ''*b*'' \<and>
      outs ! 2 = escapeMarkdown ''*c*'' (codeBlockBranchOptions (defaults\<lparr>codeBlockContent := False\<rparr>)) \<and>
      escapeMarkdown ''a```*b*```*c*'' (defaults\<lparr>codeBlockContent := False\<rparr>) =
        join (BS # ''`'' @ BS # ''`'' @ BS # ''`'') outs)"
proof -
  let ?o = "defaults\<lparr>codeBlockContent := False\<rparr>"
  have h: "\<not> codeBlockContent ?o"
    by (simp add: defaults_def)
  have c: "codeBlock ?o"
    by (simp add: defaults_def)
  have s: "split ''```'' ''a```*b*```*c*'' = [''a'', ''*b*'', ''*c*'']"
    by code_simp
  from escapeMarkdown_codeBlockContent_regions [OF h, of "''a```*b*```*c*''", unfolded s]
  obtain outs where l: "length outs = length [''a'', ''*b*'', ''*c*'']"
    and n: "\<forall>i < length [''a'', ''*b*'', ''*c*'']. outs ! i =
            (if odd i \<and> i \<noteq> length [''a'', ''*b*'', ''*c*''] - 1 then [''a'', ''*b*'', ''*c*''] ! i
             else escapeMarkdown ([''a'', ''*b*'', ''*c*''] ! i) (codeBlockBranchOptions ?o))"
    and e: "escapeMarkdown ''a```*b*```*c*'' ?o =
         join (if codeBlock ?o then BS # ''`'' @ BS # ''`'' @ BS # ''`'' else ''```'') outs"
    by blast
  from l have "length outs = 3"
    by simp
  moreover from n have "outs ! 1 = ''*b*''"
    by simp
  moreover from n have "outs ! 2 = escapeMarkdown ''*c*'' (codeBlockBranchOptions ?o)"
    by simp
  moreover from e c have "escapeMarkdown ''a```*b*```*c*'' ?o = join (BS # ''`'' @ BS # ''`'' @ BS # ''`'') outs"
    by simp
  ultimately show ?thesis
    using h s by blast
qed

section \<open>The toggle-pair escapers (claims C2 and C3)\<close>

subsection \<open>Bold and underline\<close>

lemma matchAt_bold:
  "matchAt False (boldRegex a) pre (a # a # a # r) = Some (a # a # a # pre, r, [(1, [a])])"
  "z \<noteq> a \<Longrightarrow> matchAt False (boldRegex a) pre (a # a # z # r) = Some (a # a # pre, z # r, [])"
  "matchAt False (boldRegex a) pre [a, a] = Some (a # a # pre, [], [])"
  "\<not> (x = a \<and> y = a) \<Longrightarrow> matchAt False (boldRegex a) pre (x # y # r) = None"
  "matchAt False (boldRegex a) pre [x] = None"
  "matchAt False (boldRegex a) pre [] = None"
  by (auto simp add: matchAt_def boldRegex_def rep_opt)

lemma boldReplacer_simps:
  "boldReplacer a i matched [(Suc 0, [a])] =
     (if even i then [a, BS, a, BS, a] else [BS, a, BS, a, a], Suc i)"
  "boldReplacer a i matched [] = ([BS, a, BS, a], i)"
  unfolding boldReplacer_def increment_parity by simp_all

lemma replaceFrom_bold:
  "replaceFrom False (boldRegex a) (boldReplacer a) i pre rest = boldScan a i rest"
proof (induction a i rest arbitrary: pre rule: boldScan.induct)
  case (1 a i x y z r)
  show ?case
  proof (cases "x = a \<and> y = a")
    case True
    show ?thesis
    proof (cases "z = a")
      case True
      with \<open>x = a \<and> y = a\<close> "1.IH"(1) show ?thesis
        by (simp add: replaceFrom_hit [OF matchAt_bold(1)] boldReplacer_simps)
    next
      case False
      with \<open>x = a \<and> y = a\<close> "1.IH"(2) show ?thesis
        by (simp add: replaceFrom_hit [OF matchAt_bold(2)] boldReplacer_simps)
    qed
  next
    case False
    then have m: "matchAt False (boldRegex a) pre (x # y # z # r) = None"
      by (rule matchAt_bold(4))
    from False have "boldScan a i (x # y # z # r) = x # boldScan a i (y # z # r)"
      by auto
    moreover from False have "replaceFrom False (boldRegex a) (boldReplacer a) i (x # pre) (y # z # r)
        = boldScan a i (y # z # r)"
      by (intro "1.IH"(3)) auto
    ultimately show ?thesis
      by (simp add: replaceFrom_miss [OF m])
  qed
next
  case (2 a i x y)
  show ?case
  proof (cases "x = a \<and> y = a")
    case True
    then show ?thesis
      by (simp add: replaceFrom_hit [OF matchAt_bold(3)] boldReplacer_simps
          replaceFrom_Nil matchAt_bold(6))
  next
    case False
    then have m: "matchAt False (boldRegex a) pre [x, y] = None"
      by (rule matchAt_bold(4))
    from False show ?thesis
      by (auto simp add: replaceFrom_miss [OF m] replaceFrom_miss [OF matchAt_bold(5)]
          replaceFrom_Nil matchAt_bold(6))
  qed
next
  case (3 a i x)
  show ?case
    by (simp add: replaceFrom_miss [OF matchAt_bold(5)] replaceFrom_Nil matchAt_bold(6))
next
  case (4 a i)
  show ?case
    by (simp add: replaceFrom_Nil matchAt_bold(6))
qed

subsection \<open>Italic\<close>

lemma matchAt_italic:
  "before pre \<noteq> Some a \<Longrightarrow> y \<noteq> a \<Longrightarrow>
     matchAt False (italicRegex a) pre (a # y # ys) = Some (y # a # pre, ys, [(1, [y])])"
  "before pre \<noteq> Some a \<Longrightarrow>
     matchAt False (italicRegex a) pre (a # a # a # zs) = Some (a # a # a # pre, zs, [(1, [a, a])])"
  "before pre \<noteq> Some a \<Longrightarrow>
     matchAt False (italicRegex a) pre [a] = Some (a # pre, [], [(1, [])])"
  "before pre \<noteq> Some a \<Longrightarrow> z \<noteq> a \<Longrightarrow>
     matchAt False (italicRegex a) pre (a # a # z # zs) = None"
  "before pre \<noteq> Some a \<Longrightarrow> matchAt False (italicRegex a) pre [a, a] = None"
  "before pre = Some a \<Longrightarrow> matchAt False (italicRegex a) pre rest = None"
  "x \<noteq> a \<Longrightarrow> matchAt False (italicRegex a) pre (x # xs) = None"
  "matchAt False (italicRegex a) pre [] = None"
  by (auto simp add: matchAt_def italicRegex_def before_def split: list.splits)


lemma italicReplacer_simps:
  "italicReplacer a i matched [(Suc 0, [y])] = ([BS, a, y], i)"
  "italicReplacer a i matched [(Suc 0, [a, a])] =
     (if even i then [BS, a, a, a] else [a, a, BS, a], Suc i)"
  "italicReplacer a i matched [(Suc 0, [])] = ([BS, a], i)"
  unfolding italicReplacer_def increment_parity by (simp_all add: group_def)

lemma replaceFrom_italic:
  "prev = before pre \<Longrightarrow>
   replaceFrom False (italicRegex a) (italicReplacer a) i pre rest = italicScan a i prev rest"
proof (induction a i prev rest arbitrary: pre rule: italicScan.induct)
  case (1 a i prev)
  show ?case
    by (simp add: replaceFrom_Nil matchAt_italic(8))
next
  case (2 a i prev x xs)
  note prev = \<open>prev = before pre\<close>
  show ?case
  proof (cases "x = a \<and> prev \<noteq> Some a")
    case False
    then have m: "matchAt False (italicRegex a) pre (x # xs) = None"
      using prev by (auto simp add: matchAt_italic(6,7))
    from False have "replaceFrom False (italicRegex a) (italicReplacer a) i (x # pre) xs
        = italicScan a i (Some x) xs"
      by (intro "2.IH"(5)) simp_all
    with False show ?thesis
      by (auto simp add: replaceFrom_miss [OF m])
  next
    case True
    then have b: "before pre \<noteq> Some a" and x: "x = a"
      using prev by simp_all
    show ?thesis
    proof (cases xs)
      case Nil
      with True show ?thesis
        by (simp add: replaceFrom_hit [OF matchAt_italic(3) [OF b]] x italicReplacer_simps
            replaceFrom_Nil matchAt_italic(8))
    next
      case (Cons y ys)
      note xs = this
      show ?thesis
      proof (cases "y = a")
        case False
        have "replaceFrom False (italicRegex a) (italicReplacer a) i (y # a # pre) ys
            = italicScan a i (Some y) ys"
          using True xs False by (intro "2.IH"(1)) simp_all
        with True xs False show ?thesis
          by (simp add: replaceFrom_hit [OF matchAt_italic(1) [OF b False]] x
              italicReplacer_simps)
      next
        case True
        note y = this
        have later: "replaceFrom False (italicRegex a) (italicReplacer a) i (x # pre) xs
            = italicScan a i (Some x) xs \<Longrightarrow> matchAt False (italicRegex a) pre (x # xs) = None
            \<Longrightarrow> italicScan a i prev (x # xs) = x # italicScan a i (Some x) xs \<Longrightarrow> ?thesis"
          by (simp add: replaceFrom_miss)
        show ?thesis
        proof (cases ys)
          case Nil
          have "replaceFrom False (italicRegex a) (italicReplacer a) i (x # pre) xs
            = italicScan a i (Some x) xs"
            using \<open>x = a \<and> prev \<noteq> Some a\<close> xs y Nil by (intro "2.IH"(2)) simp_all
          moreover have "matchAt False (italicRegex a) pre (x # xs) = None"
            using xs y Nil x by (simp add: matchAt_italic(5) [OF b])
          moreover have "italicScan a i prev (x # xs) = x # italicScan a i (Some x) xs"
            using \<open>x = a \<and> prev \<noteq> Some a\<close> xs y Nil by simp
          ultimately show ?thesis
            by (rule later)
        next
          case (Cons z zs)
          note ys = this
          show ?thesis
          proof (cases "z = a")
            case True
            have "replaceFrom False (italicRegex a) (italicReplacer a) (i + 1) (a # a # a # pre) zs
                = italicScan a (i + 1) (Some a) zs"
              using \<open>x = a \<and> prev \<noteq> Some a\<close> xs y ys True by (intro "2.IH"(3)) simp_all
            with \<open>x = a \<and> prev \<noteq> Some a\<close> xs y ys True show ?thesis
              by (simp add: replaceFrom_hit [OF matchAt_italic(2) [OF b]] italicReplacer_simps)
          next
            case False
            have "replaceFrom False (italicRegex a) (italicReplacer a) i (x # pre) xs
              = italicScan a i (Some x) xs"
              using \<open>x = a \<and> prev \<noteq> Some a\<close> xs y ys False by (intro "2.IH"(4)) simp_all
            moreover have "matchAt False (italicRegex a) pre (x # xs) = None"
              using xs y ys x by (simp add: matchAt_italic(4) [OF b False])
            moreover have "italicScan a i prev (x # xs) = x # italicScan a i (Some x) xs"
              using \<open>x = a \<and> prev \<noteq> Some a\<close> xs y ys False by simp
            ultimately show ?thesis
              by (rule later)
          qed
        qed
      qed
    qed
  qed
qed

subsection \<open>Claim C2\<close>

text \<open>
  Claim C2. For every input string, \<^verbatim>\<open>escapeItalic\<close> is the scan that claim C2 describes,
  run for the marker \<^verbatim>\<open>*\<close> over the text and then for the marker \<^verbatim>\<open>_\<close> over the result,
  each run with a counter of its own that starts at zero: every marker that is not
  preceded by the same marker and is followed by one other character, by the doubled
  marker or by the end of the text is processed; a doubled capture increments the
  counter, the backslash goes before the single marker on odd increments and after the
  captured pair on even ones; any other capture is escaped in place and leaves the
  counter alone.
\<close>

theorem escapeItalic_scan:
  "escapeItalic text = italicScan (CHR ''_'') 0 None (italicScan (CHR ''*'') 0 None text)"
  by (simp add: escapeItalic_def replace_def replaceFrom_italic)

text \<open>
  The theorem at a text with two triples of \<^verbatim>\<open>*\<close> (an odd and an even increment), a single
  \<^verbatim>\<open>*\<close>, a pair, and a \<^verbatim>\<open>_\<close> at the end of the text.
\<close>

theorem escapeItalic_scan_witness:
  "escapeItalic ''***a*** *b **c_'' =
     BS # ''***a**'' @ BS # ''* '' @ BS # ''*b **c'' @ BS # ''_''"
  using escapeItalic_scan [of "''***a*** *b **c_''"] by simp

subsection \<open>Claim C3\<close>

text \<open>
  Claim C3 says that on an odd increment \<^verbatim>\<open>escapeBold\<close> places the escape before the
  triple, with the single marker trailing. The first triple of a text is an odd
  increment, and there the single marker comes first: \<^verbatim>\<open>***\<close> becomes \<^verbatim>\<open>*\*\*\<close>, not
  \<^verbatim>\<open>\*\**\<close>.
\<close>

theorem escapeBold_first_triple:
  "escapeBold ''***'' = ''*'' @ BS # ''*'' @ BS # ''*'' \<and>
   escapeBold ''***'' \<noteq> BS # ''*'' @ BS # ''**''"
  by (simp add: escapeBold_def replace_def replaceFrom_bold)

text \<open>
  Claim C3 as amended. For every input string, \<^verbatim>\<open>escapeBold\<close> matches each occurrence of
  \<^verbatim>\<open>**\<close> with an optional third \<^verbatim>\<open>*\<close> right after it; each match that has the third \<^verbatim>\<open>*\<close>
  increments a counter that starts at zero; on odd increments the third \<^verbatim>\<open>*\<close> is written
  first, unescaped, and the backslashed pair after it (\<^verbatim>\<open>*\*\*\<close>), on even increments the
  backslashed pair is written first and the unescaped third \<^verbatim>\<open>*\<close> after it (\<^verbatim>\<open>\*\**\<close>);
  a match without the third \<^verbatim>\<open>*\<close> becomes \<^verbatim>\<open>\*\*\<close> and leaves the counter alone.
\<close>

theorem escapeBold_scan:
  "escapeBold text = boldScan (CHR ''*'') 0 text"
  by (simp add: escapeBold_def replace_def replaceFrom_bold)

text \<open>The theorem at a text with two triples and a pair.\<close>

theorem escapeBold_scan_witness:
  "escapeBold ''***a*** **b'' =
     ''*'' @ BS # ''*'' @ BS # ''*a'' @ BS # ''*'' @ BS # ''** '' @ BS # ''*'' @ BS # ''*b''"
  using escapeBold_scan [of "''***a*** **b''"] by simp

section \<open>The order of the escapers (claim C4)\<close>

text \<open>
  Claim C4. With \<^verbatim>\<open>codeBlockContent\<close> and \<^verbatim>\<open>inlineCodeContent\<close> both true, \<^verbatim>\<open>escapeMarkdown\<close>
  runs the escapers whose flags are set, and only those, over the whole text, each on the
  result of the one before, in the order escape character, inline code, code block,
  italic, bold, underline, strikethrough, spoiler, heading, bulleted list, numbered list,
  masked link.
\<close>

theorem escapeMarkdown_fixed_order:
  assumes "codeBlockContent opts" and "inlineCodeContent opts"
  shows "escapeMarkdown text opts =
    fold (\<lambda>(flag, escaper) t. if flag then escaper t else t)
      [(escape opts, escapeEscape), (inlineCode opts, escapeInlineCode),
       (codeBlock opts, escapeCodeBlock), (italic opts, escapeItalic),
       (bold opts, escapeBold), (underline opts, escapeUnderline),
       (strikethrough opts, escapeStrikethrough), (spoiler opts, escapeSpoiler),
       (heading opts, escapeHeading), (bulletedList opts, escapeBulletedList),
       (numberedList opts, escapeNumberedList), (maskedLink opts, escapeMaskedLink)]
      text"
  using assms by (simp add: escapeMarkdown_sequence applyIf_def)

text \<open>The theorem at the default options, which set the first eight flags.\<close>

theorem escapeMarkdown_fixed_order_witness:
  "codeBlockContent defaults \<and> inlineCodeContent defaults \<and>
   escapeMarkdown ''*a* **b**'' defaults =
     escapeSpoiler (escapeStrikethrough (escapeUnderline (escapeBold (escapeItalic
       (escapeCodeBlock (escapeInlineCode (escapeEscape ''*a* **b**'')))))))"
proof -
  have h: "codeBlockContent defaults" "inlineCodeContent defaults"
    by (simp_all add: defaults_def)
  show ?thesis
    using h escapeMarkdown_fixed_order [OF h, of "''*a* **b**''"]
    by (simp add: defaults_def)
qed

section \<open>One construct enabled alone\<close>

text \<open>
  With the two content flags at their defaults and a single construct enabled,
  \<^verbatim>\<open>escapeMarkdown\<close> is the escaper of that construct.
\<close>

lemma escapeMarkdown_single:
  "escapeMarkdown t (noConstruct\<lparr>codeBlock := True\<rparr>) = escapeCodeBlock t"
  "escapeMarkdown t (noConstruct\<lparr>inlineCode := True\<rparr>) = escapeInlineCode t"
  "escapeMarkdown t (noConstruct\<lparr>italic := True\<rparr>) = escapeItalic t"
  "escapeMarkdown t (noConstruct\<lparr>bold := True\<rparr>) = escapeBold t"
  "escapeMarkdown t (noConstruct\<lparr>underline := True\<rparr>) = escapeUnderline t"
  "escapeMarkdown t (noConstruct\<lparr>strikethrough := True\<rparr>) = escapeStrikethrough t"
  "escapeMarkdown t (noConstruct\<lparr>spoiler := True\<rparr>) = escapeSpoiler t"
  "escapeMarkdown t (noConstruct\<lparr>heading := True\<rparr>) = escapeHeading t"
  "escapeMarkdown t (noConstruct\<lparr>bulletedList := True\<rparr>) = escapeBulletedList t"
  "escapeMarkdown t (noConstruct\<lparr>numberedList := True\<rparr>) = escapeNumberedList t"
  "escapeMarkdown t (noConstruct\<lparr>maskedLink := True\<rparr>) = escapeMaskedLink t"
  by (simp_all add: escapeMarkdown_sequence noConstruct_def applyIf_def)

text \<open>
  Claim C5, as stated, fails for inline code, italic and masked links. A lone backtick
  becomes \<^verbatim>\<open>\`\<close>, and in that text the backtick still has no backtick next to it, so the
  second pass escapes it again. A lone asterisk becomes \<^verbatim>\<open>\*\<close>, where the asterisk is now
  preceded by a backslash, which is not an asterisk, so it is escaped again. The link
  \<^verbatim>\<open>[a](b)\<close> becomes \<^verbatim>\<open>\[a](b)\<close>, which still contains the link.
\<close>

theorem escapeMarkdown_single_not_idempotent:
  "escapeMarkdown ''`'' (noConstruct\<lparr>inlineCode := True\<rparr>) = BS # ''`'' \<and>
   escapeMarkdown (escapeMarkdown ''`'' (noConstruct\<lparr>inlineCode := True\<rparr>))
     (noConstruct\<lparr>inlineCode := True\<rparr>) = BS # BS # ''`'' \<and>
   escapeMarkdown ''*'' (noConstruct\<lparr>italic := True\<rparr>) = BS # ''*'' \<and>
   escapeMarkdown (escapeMarkdown ''*'' (noConstruct\<lparr>italic := True\<rparr>))
     (noConstruct\<lparr>italic := True\<rparr>) = BS # BS # ''*'' \<and>
   escapeMarkdown ''[a](b)'' (noConstruct\<lparr>maskedLink := True\<rparr>) = BS # ''[a](b)'' \<and>
   escapeMarkdown (escapeMarkdown ''[a](b)'' (noConstruct\<lparr>maskedLink := True\<rparr>))
     (noConstruct\<lparr>maskedLink := True\<rparr>) = BS # BS # ''[a](b)''"
  unfolding escapeMarkdown_single by code_simp

text \<open>
  The same happens for the other constructs that are not anchored at the start of a line,
  on a run of delimiters that is one character longer than a delimiter pair allows: the
  first pass leaves a delimiter next to an escaped one, and the second pass finds a new
  pair there.
\<close>

lemma escapeMarkdown_single_not_idempotent_runs:
  "escapeMarkdown (escapeMarkdown ''`````'' (noConstruct\<lparr>codeBlock := True\<rparr>))
     (noConstruct\<lparr>codeBlock := True\<rparr>)
     \<noteq> escapeMarkdown ''`````'' (noConstruct\<lparr>codeBlock := True\<rparr>)"
  "escapeMarkdown (escapeMarkdown ''****'' (noConstruct\<lparr>bold := True\<rparr>))
     (noConstruct\<lparr>bold := True\<rparr>)
     \<noteq> escapeMarkdown ''****'' (noConstruct\<lparr>bold := True\<rparr>)"
  "escapeMarkdown (escapeMarkdown ''____'' (noConstruct\<lparr>underline := True\<rparr>))
     (noConstruct\<lparr>underline := True\<rparr>)
     \<noteq> escapeMarkdown ''____'' (noConstruct\<lparr>underline := True\<rparr>)"
  "escapeMarkdown (escapeMarkdown ''~~~'' (noConstruct\<lparr>strikethrough := True\<rparr>))
     (noConstruct\<lparr>strikethrough := True\<rparr>)
     \<noteq> escapeMarkdown ''~~~'' (noConstruct\<lparr>strikethrough := True\<rparr>)"
  "escapeMarkdown (escapeMarkdown ''|||'' (noConstruct\<lparr>spoiler := True\<rparr>))
     (noConstruct\<lparr>spoiler := True\<rparr>)
     \<noteq> escapeMarkdown ''|||'' (noConstruct\<lparr>spoiler := True\<rparr>)"
  unfolding escapeMarkdown_single by code_simp+

text \<open>
  Claim C5, amended: idempotence holds for the three constructs whose pattern is anchored
  at the start of a line. With heading, bulleted list or numbered list enabled alone (every
  other construct and \<^verbatim>\<open>escape\<close> disabled), applying \<^verbatim>\<open>escapeMarkdown\<close> to its own output gives
  that output again, for every text.
\<close>

theorem escapeMarkdown_line_constructs_idempotent:
  assumes "opts \<in> {noConstruct\<lparr>heading := True\<rparr>, noConstruct\<lparr>bulletedList := True\<rparr>,
                   noConstruct\<lparr>numberedList := True\<rparr>}"
  shows "escapeMarkdown (escapeMarkdown t opts) opts = escapeMarkdown t opts"
proof -
  consider "opts = noConstruct\<lparr>heading := True\<rparr>" | "opts = noConstruct\<lparr>bulletedList := True\<rparr>"
    | "opts = noConstruct\<lparr>numberedList := True\<rparr>"
    using assms by blast
  then show ?thesis
  proof cases
    case 1
    then show ?thesis
      by (simp only: escapeMarkdown_single escapeHeading_idem)
  next
    case 2
    then show ?thesis
      by (simp only: escapeMarkdown_single escapeBulletedList_idem)
  next
    case 3
    then show ?thesis
      by (simp only: escapeMarkdown_single escapeNumberedList_idem)
  qed
qed

theorem escapeMarkdown_line_constructs_idempotent_witness:
  "escapeMarkdown (escapeMarkdown ''# a'' (noConstruct\<lparr>heading := True\<rparr>)) (noConstruct\<lparr>heading := True\<rparr>)
     = escapeMarkdown ''# a'' (noConstruct\<lparr>heading := True\<rparr>) \<and>
   escapeMarkdown ''# a'' (noConstruct\<lparr>heading := True\<rparr>) = BS # ''# a''"
proof
  show "escapeMarkdown (escapeMarkdown ''# a'' (noConstruct\<lparr>heading := True\<rparr>)) (noConstruct\<lparr>heading := True\<rparr>)
     = escapeMarkdown ''# a'' (noConstruct\<lparr>heading := True\<rparr>)"
    using escapeMarkdown_line_constructs_idempotent [of "noConstruct\<lparr>heading := True\<rparr>" "''# a''"]
    by simp
  show "escapeMarkdown ''# a'' (noConstruct\<lparr>heading := True\<rparr>) = BS # ''# a''"
    unfolding escapeMarkdown_single by code_simp
qed

section \<open>Escaping inserts backslashes\<close>

subsection \<open>The relation\<close>

lemma special_simps [simp]:
  "special BS" "special (CHR ''`'')" "special (CHR ''*'')" "special (CHR ''_'')"
  "special (CHR ''~'')" "special (CHR ''|'')" "special (CHR ''#'')" "special (CHR ''-'')"
  "special (CHR ''.'')" "special (CHR ''['')" "\<not> special (CHR '' '')"
  by (simp_all add: special_def)

lemma ins_refl [simp]: "ins t t"
  by (induction t) (simp_all add: ins.intros)

lemma ins_append: "ins a b \<Longrightarrow> ins c d \<Longrightarrow> ins (a @ c) (b @ d)"
  by (induction rule: ins.induct) (simp_all add: ins.intros)

lemma ins_head_special:
  assumes "ins (y # ys) c" and "special y"
  shows "\<exists>z zs. c = z # zs \<and> special z"
  using assms by (cases rule: ins.cases) auto

lemma ins_ConsE:
  assumes "ins a (x # b)"
  shows "(\<exists>a'. a = x # a' \<and> ins a' b) \<or> (x = BS \<and> (\<exists>y ys. b = y # ys \<and> special y \<and> ins a b))"
  using assms by (cases rule: ins.cases) simp_all

lemma ins_trans: "ins b c \<Longrightarrow> ins a b \<Longrightarrow> ins a c"
proof (induction arbitrary: a rule: ins.induct)
  case ins_Nil
  then show ?case
    by simp
next
  case (ins_keep xs ys x)
  from ins_ConsE [OF ins_keep.prems] show ?case
  proof
    assume "\<exists>a'. a = x # a' \<and> ins a' xs"
    then obtain a' where "a = x # a'" and "ins a' xs"
      by blast
    with ins_keep.IH show ?thesis
      by (simp add: ins.intros)
  next
    assume "x = BS \<and> (\<exists>y bs. xs = y # bs \<and> special y \<and> ins a xs)"
    then obtain y bs where x: "x = BS" and xs: "xs = y # bs" and y: "special y" and a: "ins a xs"
      by blast
    have "ins a ys"
      using ins_keep.IH a by simp
    moreover obtain z zs where "ys = z # zs" and "special z"
      using ins_head_special [of y bs ys] ins_keep.hyps xs y by auto
    ultimately show ?thesis
      using x by (simp add: ins.intros)
  qed
next
  case (ins_add xs y ys)
  then show ?case
    by (simp add: ins.intros)
qed

lemma ins_insert: "special y \<Longrightarrow> ins (u @ y # v) (u @ BS # y # v)"
  by (intro ins_append ins_refl ins.intros)

lemma ins_length: "ins a b \<Longrightarrow> length a \<le> length b"
  by (induction rule: ins.induct) simp_all

lemma ins_join:
  "ins sep sep' \<Longrightarrow> list_all2 ins xs ys \<Longrightarrow> ins (join sep xs) (join sep' ys)"
proof (induction xs arbitrary: ys)
  case Nil
  then show ?case
    by simp
next
  case (Cons x xs)
  then obtain y ys' where ys: "ys = y # ys'" and xy: "ins x y" and rest: "list_all2 ins xs ys'"
    by (auto simp add: list_all2_Cons1)
  show ?case
  proof (cases xs)
    case Nil
    with rest ys xy show ?thesis
      by simp
  next
    case c: (Cons x2 xs2)
    then have "ys' \<noteq> []"
      using rest by auto
    have "ins (x @ sep @ join sep xs) (y @ sep' @ join sep' ys')"
      by (intro ins_append xy Cons.prems(1) Cons.IH rest)
    with c \<open>ys' \<noteq> []\<close> ys show ?thesis
      by (simp add: join_Cons)
  qed
qed



lemma ins_filter: "ins a b \<Longrightarrow> filter (\<lambda>x. x \<noteq> BS) a = filter (\<lambda>x. x \<noteq> BS) b"
  by (induction rule: ins.induct) simp_all

subsection \<open>The replacement loops\<close>

lemma ins_replaceAll: "ins pat sub \<Longrightarrow> ins t (replaceAll pat sub t)"
proof (induction pat sub t rule: replaceAll.induct)
  case (1 pat sub t)
  show ?case
  proof (cases "pat \<noteq> [] \<and> take (length pat) t = pat")
    case True
    then have t: "t = pat @ drop (length pat) t"
      by (metis append_take_drop_id)
    have "ins (pat @ drop (length pat) t) (sub @ replaceAll pat sub (drop (length pat) t))"
      using "1.IH"(1) [OF True] "1.prems" by (intro ins_append)
    moreover have "replaceAll pat sub t = sub @ replaceAll pat sub (drop (length pat) t)"
      using True by (subst replaceAll.simps) simp
    ultimately show ?thesis
      using t by simp
  next
    case False
    show ?thesis
    proof (cases t)
      case Nil
      then show ?thesis
        by (subst replaceAll.simps) auto
    next
      case (Cons x xs)
      have "replaceAll pat sub t = x # replaceAll pat sub xs"
        using False Cons by (subst replaceAll.simps) auto
      then show ?thesis
        using "1.IH"(2) [OF False Cons] "1.prems" Cons by (simp add: ins_keep)
    qed
  qed
qed

lemma ins_replaceFrom:
  assumes "\<And>s pre rest pre' rest' c. matchAt ml r pre rest = Some (pre', rest', c) \<Longrightarrow>
             \<exists>w. w \<noteq> [] \<and> rest = w @ rest' \<and> ins w (fst (f s w c))"
  shows "ins rest (replaceFrom ml r f s pre rest)"
proof (induction rest arbitrary: s pre rule: length_induct)
  case (1 rest)
  show ?case
  proof (cases "matchAt ml r pre rest")
    case None
    show ?thesis
    proof (cases rest)
      case Nil
      then show ?thesis
        using None by (simp add: replaceFrom_Nil)
    next
      case (Cons x xs)
      then show ?thesis
        using None 1 [rule_format, of xs s "x # pre"] by (simp add: replaceFrom_miss ins_keep)
    qed
  next
    case (Some st)
    obtain pre' rest' c where st: "st = (pre', rest', c)"
      by (cases st)
    from assms [of pre rest pre' rest' c s] Some st obtain w
      where w: "w \<noteq> []" "rest = w @ rest'" "ins w (fst (f s w c))"
      by blast
    then have l: "length rest' < length rest" and tk: "take (length rest - length rest') rest = w"
      by simp_all
    have "replaceFrom ml r f s pre rest = fst (f s w c) @ replaceFrom ml r f (snd (f s w c)) pre' rest'"
      using replaceFrom_hit [of ml r pre rest pre' rest' c f s] Some st l unfolding tk by simp
    moreover have "ins rest' (replaceFrom ml r f (snd (f s w c)) pre' rest')"
      using 1 l by simp
    ultimately show ?thesis
      using w by (simp add: ins_append)
  qed
qed

lemma ins_boldScan:
  assumes a: "special a"
  shows "ins t (boldScan a i t)"
proof (induction t arbitrary: i rule: length_induct)
  case (1 t)
  have IH: "ins u (boldScan a j u)" if "length u < length t" for u j
    using 1 that by simp
  have triple: "ins [a, a, a] [a, BS, a, BS, a]" "ins [a, a, a] [BS, a, BS, a, a]"
    and pair: "ins [a, a] [BS, a, BS, a]"
    using a by (simp_all add: ins.intros)
  show ?case
  proof (cases t)
    case Nil
    then show ?thesis
      by simp
  next
    case t1: (Cons x t1)
    show ?thesis
    proof (cases t1)
      case Nil
      with t1 show ?thesis
        by simp
    next
      case t2: (Cons y t2)
      show ?thesis
      proof (cases t2)
        case Nil
        with t1 t2 pair show ?thesis
          by auto
      next
        case (Cons z r)
        with t1 t2 have t: "t = x # y # z # r"
          by simp
        show ?thesis
        proof (cases "x = a \<and> y = a")
          case True
          show ?thesis
          proof (cases "z = a")
            case True
            have "ins ([a, a, a] @ r)
                ((if odd (i + 1) then [a, BS, a, BS, a] else [BS, a, BS, a, a]) @ boldScan a (i + 1) r)"
              using triple IH [of r "i + 1"] t by (intro ins_append) simp_all
            with \<open>x = a \<and> y = a\<close> True t show ?thesis
              by simp
          next
            case False
            have "ins ([a, a] @ z # r) ([BS, a, BS, a] @ boldScan a i (z # r))"
              using pair IH [of "z # r" i] t by (intro ins_append) simp_all
            with \<open>x = a \<and> y = a\<close> False t show ?thesis
              by simp
          qed
        next
          case False
          have "ins (x # y # z # r) (x # boldScan a i (y # z # r))"
            using IH [of "y # z # r" i] t by (intro ins_keep) simp
          with False t show ?thesis
            by auto
        qed
      qed
    qed
  qed
qed

lemma ins_italicScan:
  assumes a: "special a"
  shows "ins t (italicScan a i prev t)"
proof (induction t arbitrary: i prev rule: length_induct)
  case (1 t)
  have IH: "ins u (italicScan a j p u)" if "length u < length t" for u j p
    using 1 that by simp
  have single: "ins [a] [BS, a]"
    and triple: "ins [a, a, a] [BS, a, a, a]" "ins [a, a, a] [a, a, BS, a]"
    using a by (simp_all add: ins.intros)
  show ?case
  proof (cases t)
    case Nil
    then show ?thesis
      by simp
  next
    case t: (Cons x xs)
    have copy: "ins t (x # italicScan a i (Some x) xs)"
      using IH [of xs i "Some x"] t by (simp add: ins_keep)
    show ?thesis
    proof (cases "x = a \<and> prev \<noteq> Some a")
      case False
      with copy t show ?thesis
        by auto
    next
      case True
      show ?thesis
      proof (cases xs)
        case Nil
        with True t single show ?thesis
          by simp
      next
        case (Cons y ys)
        show ?thesis
        proof (cases "y = a")
          case False
          have "ins ([a] @ y # ys) ([BS, a] @ y # italicScan a i (Some y) ys)"
            using single IH [of ys i "Some y"] t Cons by (intro ins_append ins_keep) simp_all
          with True t Cons False show ?thesis
            by simp
        next
          case ya: True
          show ?thesis
          proof (cases ys)
            case Nil
            with True t Cons ya copy show ?thesis
              by simp
          next
            case zs: (Cons z zs)
            show ?thesis
            proof (cases "z = a")
              case True
              have "ins ([a, a, a] @ zs)
                  ((if odd (i + 1) then [BS, a, a, a] else [a, a, BS, a]) @ italicScan a (i + 1) (Some a) zs)"
                using triple IH [of zs "i + 1" "Some a"] t Cons zs by (intro ins_append) simp_all
              with \<open>x = a \<and> prev \<noteq> Some a\<close> t Cons ya zs True show ?thesis
                by simp
            next
              case False
              with True t Cons ya zs copy show ?thesis
                by simp
            qed
          qed
        qed
      qed
    qed
  qed
qed

lemma ins_lineScan:
  assumes "\<And>rest out rest'. h rest = Some (out, rest') \<Longrightarrow> \<exists>w. rest = w @ rest' \<and> ins w out"
  shows "ins rest (lineScan h bol rest)"
proof (induction rest arbitrary: bol rule: length_induct)
  case (1 rest)
  show ?case
  proof (cases "\<exists>out rest'. (if bol then h rest else None) = Some (out, rest') \<and> length rest' < length rest")
    case True
    then obtain out rest' where h: "h rest = Some (out, rest')" and l: "length rest' < length rest"
      and bol: bol
      by (auto split: if_splits)
    have "lineScan h True rest = out @ lineScan h False rest'"
      using h l by (rule lineScan_hit)
    moreover have "ins rest' (lineScan h False rest')"
      using 1 l by simp
    moreover from assms [OF h] obtain w where "rest = w @ rest'" "ins w out"
      by blast
    ultimately show ?thesis
      using bol by (simp add: ins_append)
  next
    case False
    show ?thesis
    proof (cases rest)
      case Nil
      then show ?thesis
        by (simp add: lineScan_Nil)
    next
      case (Cons x xs)
      have "lineScan h bol rest = x # lineScan h (lineTerminator x) xs"
        using False Cons by (subst lineScan.simps) (auto split: option.split)
      moreover have "ins xs (lineScan h (lineTerminator x) xs)"
        using 1 Cons by simp
      ultimately show ?thesis
        using Cons by (simp add: ins_keep)
    qed
  qed
qed

subsection \<open>The escapers\<close>

lemma ins_escapers:
  "ins t (escapeEscape t)"
  "ins t (escapeInlineCode t)"
  "ins t (escapeCodeBlock t)"
  "ins t (escapeItalic t)"
  "ins t (escapeBold t)"
  "ins t (escapeUnderline t)"
  "ins t (escapeStrikethrough t)"
  "ins t (escapeSpoiler t)"
  "ins t (escapeHeading t)"
  "ins t (escapeNumberedList t)"
  "ins t (escapeMaskedLink t)"
proof -
  show "ins t (escapeEscape t)"
    unfolding escapeEscape_def by (rule ins_replaceAll) (simp add: ins.intros)
  show "ins t (escapeCodeBlock t)"
    unfolding escapeCodeBlock_def by (rule ins_replaceAll) (simp add: ins.intros)
  show "ins t (escapeStrikethrough t)"
    unfolding escapeStrikethrough_def by (rule ins_replaceAll) (simp add: ins.intros)
  show "ins t (escapeSpoiler t)"
    unfolding escapeSpoiler_def by (rule ins_replaceAll) (simp add: ins.intros)
  show "ins t (escapeInlineCode t)"
    unfolding escapeInlineCode_def replace_def
  proof (rule ins_replaceFrom)
    fix s :: unit and pre rest pre' rest' c
    assume "matchAt False inlineCodeRegex pre rest = Some (pre', rest', c)"
    from matchAt_inlineCode_shape [OF this]
    have "rest = ''`'' @ rest' \<or> rest = ''``'' @ rest'"
      by simp
    then show "\<exists>w. w \<noteq> [] \<and> rest = w @ rest' \<and>
        ins w (fst (if length w = 2 then BS # ''`'' @ BS # ''`'' else BS # ''`'', s))"
    proof
      assume "rest = ''`'' @ rest'"
      moreover have "ins ''`'' (fst (if length ''`'' = 2 then BS # ''`'' @ BS # ''`'' else BS # ''`'', s))"
        by (simp add: ins.intros)
      ultimately show ?thesis
        by blast
    next
      assume "rest = ''``'' @ rest'"
      moreover have "ins ''``'' (fst (if length ''``'' = 2 then BS # ''`'' @ BS # ''`'' else BS # ''`'', s))"
        by (simp add: ins.intros)
      ultimately show ?thesis
        by blast
    qed
  qed
  have "ins (italicScan (CHR ''*'') 0 None t) (italicScan (CHR ''_'') 0 None (italicScan (CHR ''*'') 0 None t))"
    by (rule ins_italicScan) simp
  moreover have "ins t (italicScan (CHR ''*'') 0 None t)"
    by (rule ins_italicScan) simp
  ultimately show "ins t (escapeItalic t)"
    unfolding escapeItalic_def replace_def Let_def replaceFrom_italic [OF before_Nil [symmetric]]
    by (rule ins_trans)
  show "ins t (escapeBold t)"
    by (simp add: escapeBold_def replace_def replaceFrom_bold ins_boldScan)
  show "ins t (escapeUnderline t)"
    by (simp add: escapeUnderline_def replace_def replaceFrom_bold ins_boldScan)
  show "ins t (escapeHeading t)"
    unfolding escapeHeading_scan
  proof (rule ins_lineScan)
    fix rest out rest'
    assume "headingHead rest = Some (out, rest')"
    from headingHead_shape [OF this] obtain u v
      where "rest = (u @ CHR ''#'' # v) @ rest'" and "out = u @ BS # CHR ''#'' # v"
      by auto
    moreover have "ins (u @ CHR ''#'' # v) (u @ BS # CHR ''#'' # v)"
      by (rule ins_insert) simp
    ultimately show "\<exists>w. rest = w @ rest' \<and> ins w out"
      by blast
  qed
  show "ins t (escapeNumberedList t)"
    unfolding escapeNumberedList_scan
  proof (rule ins_lineScan)
    fix rest out rest'
    assume "numberHead rest = Some (out, rest')"
    from numberHead_shape [OF this] obtain u
      where "rest = (u @ ''.'') @ rest'" and "out = u @ BS # ''.''"
      by auto
    moreover have "ins (u @ ''.'') (u @ BS # ''.'')"
      by (rule ins_insert) simp
    ultimately show "\<exists>w. rest = w @ rest' \<and> ins w out"
      by blast
  qed
  show "ins t (escapeMaskedLink t)"
    unfolding escapeMaskedLink_def replaceTemplate_def replace_def
  proof (rule ins_replaceFrom)
    fix s :: unit and pre rest pre' rest' c
    assume "matchAt True maskedLinkRegex pre rest = Some (pre', rest', c)"
    from matchAt_maskedLink_shape [OF this] obtain w where w: "rest = (CHR ''['' # w) @ rest'"
      by auto
    have "ins ([] @ CHR ''['' # w) ([] @ BS # CHR ''['' # w)"
      by (rule ins_insert) simp
    then have "ins (CHR ''['' # w)
        (fst (getSubstitution (length (groups maskedLinkRegex)) (CHR ''['' # w) c (BS # ''$&''), s))"
      by (simp add: maskedLinkRegex_def getSubstitution_templates)
    with w show "\<exists>w. w \<noteq> [] \<and> rest = w @ rest' \<and>
        ins w (fst (getSubstitution (length (groups maskedLinkRegex)) w c (BS # ''$&''), s))"
      by blast
  qed
qed

subsection \<open>List markers after the italic escaper\<close>

lemma starOK_weaken:
  "starOK p t \<Longrightarrow> starOK (Some BS) t"
  by (cases t) simp_all

lemma ins_starts_space:
  assumes "ins xs ys" and "take 1 ys = '' ''"
  shows "take 1 xs = '' ''"
  using assms by (cases rule: ins.cases) auto

lemma starOK_ins: "ins t u \<Longrightarrow> starOK p t \<Longrightarrow> starOK p u"
proof (induction arbitrary: p rule: ins.induct)
  case ins_Nil
  then show ?case
    by simp
next
  case (ins_keep xs ys x)
  from ins_keep.prems have head: "x = CHR ''*'' \<and> take 1 xs = '' '' \<longrightarrow> p = Some (CHR ''*'') \<or> p = Some BS"
    and tail: "starOK (Some x) xs"
    by simp_all
  have "take 1 ys = '' '' \<Longrightarrow> take 1 xs = '' ''"
    using ins_keep.hyps by (rule ins_starts_space)
  with head ins_keep.IH [OF tail] show ?case
    by auto
next
  case (ins_add xs y ys)
  have "starOK (Some BS) (y # ys)"
    using ins_add.IH [OF starOK_weaken [OF ins_add.prems]] .
  then show ?case
    by simp
qed

lemma starOK_append:
  "starOK p (w @ r) \<Longrightarrow> w \<noteq> [] \<Longrightarrow> starOK (Some (last w)) r"
proof (induction w arbitrary: p)
  case Nil
  then show ?case
    by simp
next
  case (Cons x w)
  show ?case
  proof (cases "w = []")
    case True
    with Cons.prems show ?thesis
      by simp
  next
    case False
    with Cons.IH [of "Some x"] Cons.prems show ?thesis
      by simp
  qed
qed

lemma starOK_bullet:
  assumes "starOK p (u @ CHR ''*'' # CHR '' '' # z)" and "\<forall>y\<in>set u. y = CHR '' ''"
  shows "p = Some (CHR ''*'') \<or> p = Some BS"
  using assms
proof (induction u arbitrary: p)
  case Nil
  then show ?case
    by simp
next
  case (Cons y u)
  then have "starOK (Some (CHR '' '')) (u @ CHR ''*'' # CHR '' '' # z)" and "\<forall>y\<in>set u. y = CHR '' ''"
    by simp_all
  from Cons.IH [OF this] show ?case
    by simp
qed

lemma bulletHead_shape_space:
  assumes "bulletHead rest = Some (out, rest')"
  shows "\<exists>u x v. rest = u @ x # CHR '' '' # v @ rest' \<and> out = u @ BS # CHR ''-'' # CHR '' '' # v
           \<and> (x = CHR ''*'' \<or> x = CHR ''-'') \<and> (\<forall>y\<in>set u. y = CHR '' '')"
proof -
  obtain x r2 where d: "dropWhile isSpace rest = x # r2"
    using assms by (auto simp add: bulletHead_def split: list.splits)
  have x: "x = CHR ''*'' \<or> x = CHR ''-''"
    and n: "takeWhile isSpace r2 \<noteq> []"
    and out: "out = takeWhile isSpace rest @ BS # CHR ''-'' # takeWhile isSpace r2"
    and rest': "rest' = dropWhile isSpace r2"
    using assms unfolding bulletHead_def d by (auto split: if_splits)
  from n obtain y v where v: "takeWhile isSpace r2 = y # v"
    by (cases "takeWhile isSpace r2") auto
  have "y \<in> set (takeWhile isSpace r2)"
    unfolding v by simp
  then have y: "y = CHR '' ''"
    by (metis set_takeWhileD)
  have u: "\<forall>y\<in>set (takeWhile isSpace rest). y = CHR '' ''"
    by (metis set_takeWhileD)
  have "rest = takeWhile isSpace rest @ x # takeWhile isSpace r2 @ dropWhile isSpace r2"
    using takeWhile_dropWhile_id [of isSpace rest] unfolding d by simp
  then have "rest = takeWhile isSpace rest @ x # CHR '' '' # v @ rest'"
    unfolding v y rest' by simp
  moreover have "out = takeWhile isSpace rest @ BS # CHR ''-'' # CHR '' '' # v"
    unfolding out v y by simp
  ultimately show ?thesis
    using x u by blast
qed

lemma ins_bulletScan:
  assumes "starOK p rest" and "bol \<longrightarrow> p \<noteq> Some (CHR ''*'') \<and> p \<noteq> Some BS"
  shows "ins rest (lineScan bulletHead bol rest)"
  using assms
proof (induction rest arbitrary: bol p rule: length_induct)
  case (1 rest)
  note ok = \<open>starOK p rest\<close> and bolp = \<open>bol \<longrightarrow> p \<noteq> Some (CHR ''*'') \<and> p \<noteq> Some BS\<close>
  show ?case
  proof (cases "\<exists>out rest'. (if bol then bulletHead rest else None) = Some (out, rest')
      \<and> length rest' < length rest")
    case True
    then obtain out rest' where h: "bulletHead rest = Some (out, rest')"
      and l: "length rest' < length rest" and bol: bol
      by (auto split: if_splits)
    from bulletHead_shape_space [OF h] obtain u x v
      where rest: "rest = u @ x # CHR '' '' # v @ rest'"
        and out: "out = u @ BS # CHR ''-'' # CHR '' '' # v"
        and x: "x = CHR ''*'' \<or> x = CHR ''-''" and u: "\<forall>y\<in>set u. y = CHR '' ''"
      by blast
    have "x \<noteq> CHR ''*''"
    proof
      assume "x = CHR ''*''"
      with ok rest have "starOK p (u @ CHR ''*'' # CHR '' '' # (v @ rest'))"
        by simp
      from starOK_bullet [OF this u] bolp bol show False
        by simp
    qed
    with x have x: "x = CHR ''-''"
      by simp
    have w: "ins (u @ CHR ''-'' # CHR '' '' # v) out"
      unfolding out by (rule ins_insert) simp
    have "starOK p ((u @ x # CHR '' '' # v) @ rest')"
      using ok rest by simp
    then have "starOK (Some (last (u @ x # CHR '' '' # v))) rest'"
      by (rule starOK_append) simp
    then have "ins rest' (lineScan bulletHead False rest')"
      using 1 l by simp
    moreover have "lineScan bulletHead True rest = out @ lineScan bulletHead False rest'"
      using h l by (rule lineScan_hit)
    moreover have "rest = (u @ CHR ''-'' # CHR '' '' # v) @ rest'"
      using rest x by simp
    ultimately show ?thesis
      using bol w by (metis ins_append)
  next
    case False
    show ?thesis
    proof (cases rest)
      case Nil
      then show ?thesis
        by (simp add: lineScan_Nil)
    next
      case (Cons x xs)
      have "lineScan bulletHead bol rest = x # lineScan bulletHead (lineTerminator x) xs"
        using False Cons by (subst lineScan.simps) (auto split: option.split)
      moreover have "starOK (Some x) xs"
        using ok Cons by simp
      moreover have "lineTerminator x \<longrightarrow> Some x \<noteq> Some (CHR ''*'') \<and> Some x \<noteq> Some BS"
        by (auto simp add: lineTerminator_def)
      ultimately have "ins xs (lineScan bulletHead (lineTerminator x) xs)"
        using 1 Cons by simp
      then show ?thesis
        using Cons \<open>lineScan bulletHead bol rest = x # lineScan bulletHead (lineTerminator x) xs\<close>
        by (simp add: ins_keep)
    qed
  qed
qed

lemma italicScan_marker_copied:
  "italicScan a i (Some a) (a # xs) = a # italicScan a i (Some a) xs"
  by simp

lemma starOK_italicScan: "starOK prev (italicScan (CHR ''*'') i prev t)"
proof (induction t arbitrary: i prev rule: length_induct)
  case (1 t)
  let ?a = "CHR ''*''"
  have IH: "starOK p (italicScan ?a j p u)" if "length u < length t" for u j p
    using 1 that by simp
  show ?case
  proof (cases t)
    case Nil
    then show ?thesis
      by simp
  next
    case t: (Cons x xs)
    have tail: "starOK (Some x) (italicScan ?a i (Some x) xs)"
      using IH [where p = "Some x" and j = i and u = xs] t by simp
    show ?thesis
    proof (cases "x = ?a \<and> prev \<noteq> Some ?a")
      case False
      with tail t show ?thesis
        by auto
    next
      case True
      show ?thesis
      proof (cases xs)
        case Nil
        with True t show ?thesis
          by simp
      next
        case (Cons y ys)
        show ?thesis
        proof (cases "y = ?a")
          case False
          with True t Cons IH [where p = "Some y" and j = i and u = ys] show ?thesis
            by simp
        next
          case ya: True
          have copied: "italicScan ?a i (Some x) xs = ?a # italicScan ?a i (Some ?a) ys"
            using True Cons ya by simp
          show ?thesis
          proof (cases ys)
            case Nil
            with True t Cons ya tail copied show ?thesis
              by simp
          next
            case zs: (Cons z zs)
            show ?thesis
            proof (cases "z = ?a")
              case True
              with \<open>x = ?a \<and> prev \<noteq> Some ?a\<close> t Cons ya zs IH [where p = "Some ?a" and j = "i + 1" and u = zs] show ?thesis
                by simp
            next
              case False
              have "starOK prev (x # italicScan ?a i (Some x) xs)"
                using tail unfolding copied by simp
              with True t Cons ya zs False show ?thesis
                by simp
            qed
          qed
        qed
      qed
    qed
  qed
qed

lemma starOK_escapeItalic: "starOK None (escapeItalic t)"
proof -
  have "ins (italicScan (CHR ''*'') 0 None t) (italicScan (CHR ''_'') 0 None (italicScan (CHR ''*'') 0 None t))"
    by (rule ins_italicScan) simp
  from starOK_ins [OF this starOK_italicScan] show ?thesis
    unfolding escapeItalic_def replace_def Let_def replaceFrom_italic [OF before_Nil [symmetric]] .
qed

lemma ins_escapeBulletedList: "starOK None t \<Longrightarrow> ins t (escapeBulletedList t)"
  unfolding escapeBulletedList_scan using ins_bulletScan [of None t True] by simp

lemma ins_applyIf:
  assumes "\<And>u. ins u (f u)" and "ins t u"
  shows "ins t (applyIf flag f u)"
proof (cases flag)
  case True
  from ins_trans [OF assms(1) assms(2)] True show ?thesis
    by (simp add: applyIf_def)
next
  case False
  with assms(2) show ?thesis
    by (simp add: applyIf_def)
qed

lemma ins_escapeMarkdown_sequence:
  assumes content: "codeBlockContent opts" "inlineCodeContent opts"
    and C: "italic opts \<or> \<not> bulletedList opts"
  shows "ins t (escapeMarkdown t opts)"
proof -
  define t3 where "t3 = applyIf (codeBlock opts) escapeCodeBlock
     (applyIf (inlineCode opts) escapeInlineCode (applyIf (escape opts) escapeEscape t))"
  define t4 where "t4 = applyIf (italic opts) escapeItalic t3"
  define t9 where "t9 = applyIf (heading opts) escapeHeading
        (applyIf (spoiler opts) escapeSpoiler
         (applyIf (strikethrough opts) escapeStrikethrough
          (applyIf (underline opts) escapeUnderline
           (applyIf (bold opts) escapeBold t4))))"
  define t10 where "t10 = applyIf (bulletedList opts) escapeBulletedList t9"
  have e: "escapeMarkdown t opts =
      applyIf (maskedLink opts) escapeMaskedLink (applyIf (numberedList opts) escapeNumberedList t10)"
    unfolding escapeMarkdown_sequence [OF content] t10_def t9_def t4_def t3_def ..
  have "ins t t3"
    unfolding t3_def by (intro ins_applyIf ins_escapers ins_refl)
  then have a: "ins t t4"
    unfolding t4_def by (intro ins_applyIf ins_escapers)
  have b: "ins t4 t9"
    unfolding t9_def by (intro ins_applyIf ins_escapers ins_refl)
  have c: "ins t9 t10"
  proof (cases "bulletedList opts")
    case False
    then show ?thesis
      by (simp add: t10_def applyIf_def)
  next
    case True
    with C have "t4 = escapeItalic t3"
      by (simp add: t4_def applyIf_def)
    then have "starOK None t4"
      by (simp add: starOK_escapeItalic)
    with b have "starOK None t9"
      by (rule starOK_ins)
    then show ?thesis
      using True by (simp add: t10_def applyIf_def ins_escapeBulletedList)
  qed
  have "ins t t10"
    using c ins_trans [OF b a] by (rule ins_trans)
  then show ?thesis
    unfolding e by (intro ins_applyIf ins_escapers)
qed

lemma ins_escapeMarkdown:
  assumes "italic opts \<or> \<not> bulletedList opts"
  shows "ins t (escapeMarkdown t opts)"
proof (rule escapeMarkdown_branches [where C = "\<lambda>opts. italic opts \<or> \<not> bulletedList opts" and R = ins])
  fix sep sep' :: string and xs ys :: "string list"
  assume "ins sep sep'" and "list_all2 ins xs ys"
  then show "ins (join sep xs) (join sep' ys)"
    by (rule ins_join)
next
  show "ins ''```'' (BS # ''`'' @ BS # ''`'' @ BS # ''`'')"
    by (simp add: ins.intros)
  show "ins ''`'' (BS # ''`'')"
    by (simp add: ins.intros)
qed (simp_all add: assms ins_escapeMarkdown_sequence codeBlockBranchOptions_def inlineCodeBranchOptions_def)

subsection \<open>Claim C6\<close>




section \<open>An inline code span with protected content (claim C7)\<close>

text \<open>
  Claim C7 says that \<^verbatim>\<open>escapeMarkdown\<close> returns the eight characters \<^verbatim>\<open>`inline`\<close> unchanged
  under the options \<^verbatim>\<open>{inlineCodeContent: false}\<close>. It does not: the two delimiting
  backticks come back escaped.
\<close>

theorem escapeMarkdown_inline_span_changed:
  "escapeMarkdown ''`inline`'' (defaults\<lparr>inlineCodeContent := False\<rparr>) \<noteq> ''`inline`''"
proof -
  let ?o = "defaults\<lparr>inlineCodeContent := False\<rparr>"
  have s: "splitRegex False inlineSplitRegex ''`inline`'' = [[], ''inline'', []]"
    by code_simp
  have f: "codeBlockContent ?o" "\<not> inlineCodeContent ?o" "inlineCode ?o"
    by (simp_all add: defaults_def)
  have "escapeMarkdown ''`inline`'' ?o =
      escapeMarkdown [] (inlineCodeBranchOptions ?o) @ BS # ''`inline'' @ BS # ''`''
        @ escapeMarkdown [] (inlineCodeBranchOptions ?o)"
    by (subst escapeMarkdown_inlineCode_branch) (simp_all add: s f)
  then show ?thesis
    by simp
qed

text \<open>
  Claim C7 as amended: under \<^verbatim>\<open>{inlineCodeContent: false}\<close> and the defaults otherwise, the
  text \<^verbatim>\<open>`inline`\<close> becomes the ten characters \<^verbatim>\<open>\`inline\`\<close>: the content of the span is
  not escaped, and each of the two delimiting backticks gets a backslash, since
  \<^verbatim>\<open>inlineCode\<close> is true by default and the regions are joined with \<^verbatim>\<open>\`\<close>.
\<close>

theorem escapeMarkdown_inline_span:
  "escapeMarkdown ''`inline`'' (defaults\<lparr>inlineCodeContent := False\<rparr>) =
     BS # ''`inline'' @ BS # ''`''"
proof -
  let ?o = "defaults\<lparr>inlineCodeContent := False\<rparr>"
  have s: "splitRegex False inlineSplitRegex ''`inline`'' = [[], ''inline'', []]"
    by code_simp
  have f: "codeBlockContent ?o" "\<not> inlineCodeContent ?o" "inlineCode ?o"
    by (simp_all add: defaults_def)
  have e: "escapeMarkdown [] (inlineCodeBranchOptions ?o) = []"
    by (subst escapeMarkdown_sequence) (simp, simp, code_simp)
  show ?thesis
    by (subst escapeMarkdown_inlineCode_branch) (simp_all add: s e f)
qed

section \<open>The options of the recursive calls (claim C8)\<close>

text \<open>
  Claim C8 says that the recursive calls keep every flag of the caller but the content
  flag of their branch, so that the regions outside the protected spans are escaped as
  the caller's flags say. The call in the inline-code branch leaves \<^verbatim>\<open>inlineCode\<close> out,
  so the callee runs with \<^verbatim>\<open>inlineCode = true\<close> whatever the caller passed. With
  \<^verbatim>\<open>{inlineCode: false, inlineCodeContent: false}\<close> the text \<^verbatim>\<open>a``b\<close> has no single
  backtick to split at, is one region, and comes back with its pair of backticks
  escaped, although the caller switched the escaping of inline code off.
\<close>

theorem escapeMarkdown_inline_branch_drops_inlineCode:
  "escapeMarkdown ''a``b''
     (defaults\<lparr>inlineCodeContent := False, inlineCode := False\<rparr>) =
   ''a'' @ BS # ''`'' @ BS # ''`b'' \<and>
   inlineCode (inlineCodeBranchOptions (defaults\<lparr>inlineCodeContent := False, inlineCode := False\<rparr>))"
proof -
  let ?o = "defaults\<lparr>inlineCodeContent := False, inlineCode := False\<rparr>"
  have s: "splitRegex False inlineSplitRegex ''a``b'' = [''a``b'']"
    by code_simp
  have f: "codeBlockContent ?o" "\<not> inlineCodeContent ?o" "\<not> inlineCode ?o"
    by (simp_all add: defaults_def)
  have e: "escapeMarkdown ''a``b'' (inlineCodeBranchOptions ?o) = ''a'' @ BS # ''`'' @ BS # ''`b''"
    by (subst escapeMarkdown_sequence) (simp, simp, code_simp)
  have "escapeMarkdown ''a``b'' ?o = ''a'' @ BS # ''`'' @ BS # ''`b''"
    by (subst escapeMarkdown_inlineCode_branch) (simp_all add: s e f)
  then show ?thesis
    by (simp add: inlineCodeBranchOptions_def defaults_def)
qed

section \<open>Masked links\<close>

subsection \<open>The greedy dots\<close>

lemma notLT_paren [simp]:
  "\<not> lineTerminator (CHR '')'')" "\<not> lineTerminator (CHR ''('')"
  "\<not> lineTerminator (CHR '']'')" "\<not> lineTerminator (CHR ''['')"
  by (simp_all add: lineTerminator_def)

lemma rep_dot_step:
  "\<not> lineTerminator x \<Longrightarrow>
   rep True (step True notLT) lo None (p, x # q, c) =
     rep True (step True notLT) (lo - 1) None (x # p, q, c) @ (if lo = 0 then [(p, x # q, c)] else [])"
  by (subst rep.simps) simp

lemma rep_dot_stop:
  "q = [] \<or> lineTerminator (hd q) \<Longrightarrow>
   rep True (step True notLT) lo None (p, q, c) = (if lo = 0 then [(p, q, c)] else [])"
  by (subst rep.simps) (cases q; auto)

lemma no_close:
  assumes "CHR '')'' \<notin> set (takeWhile notLT q)"
  shows "concat (map closeParen (rep True (step True notLT) lo None (p, q, c))) = []"
  using assms
proof (induction q arbitrary: lo p)
  case Nil
  then show ?case
    by (simp add: rep_dot_stop)
next
  case (Cons x q)
  show ?case
  proof (cases "lineTerminator x")
    case True
    then have "x \<noteq> CHR '')''"
      by auto
    with True show ?thesis
      by (simp add: rep_dot_stop)
  next
    case False
    with Cons.prems have "x \<noteq> CHR '')''" and "CHR '')'' \<notin> set (takeWhile notLT q)"
      by auto
    with Cons.IH [of "lo - 1" "x # p"] False show ?thesis
      by (simp add: rep_dot_step)
  qed
qed

lemma last_close:
  assumes "lo \<le> length w" and "\<forall>x\<in>set w. \<not> lineTerminator x"
    and "CHR '')'' \<notin> set (takeWhile notLT s)"
  shows "\<exists>others. concat (map closeParen (rep True (step True notLT) lo None (p, w @ CHR '')'' # s, c)))
     = (CHR '')'' # rev w @ p, s, c) # others"
  using assms(1,2)
proof (induction w arbitrary: lo p)
  case Nil
  have n: "concat (map closeParen (rep True (step True notLT) 0 None (CHR '')'' # p, s, c))) = []"
    using assms(3) by (rule no_close)
  have "concat (map closeParen (rep True (step True notLT) lo None (p, [] @ CHR '')'' # s, c)))
      = concat (map closeParen (rep True (step True notLT) 0 None (CHR '')'' # p, s, c)))
        @ [(CHR '')'' # p, s, c)]"
    using Nil by (simp add: rep_dot_step)
  also have "\<dots> = [(CHR '')'' # p, s, c)]"
    unfolding n by simp
  finally show ?case
    by simp
next
  case (Cons x w)
  then have x: "\<not> lineTerminator x" and lo: "lo - 1 \<le> length w" and w: "\<forall>x\<in>set w. \<not> lineTerminator x"
    by simp_all
  from Cons.IH [OF lo w, of "x # p"] obtain others where
    "concat (map closeParen (rep True (step True notLT) (lo - 1) None (x # p, w @ CHR '')'' # s, c)))
       = (CHR '')'' # rev w @ x # p, s, c) # others"
    by blast
  with x show ?case
    by (simp add: rep_dot_step)
qed

lemma rep_dot_member:
  assumes "lo \<le> length w" and "\<forall>x\<in>set w. \<not> lineTerminator x"
  shows "(rev w @ p, q, c) \<in> set (rep True (step True notLT) lo None (p, w @ q, c))"
  using assms
proof (induction w arbitrary: lo p)
  case Nil
  then show ?case
    by (subst rep.simps) simp
next
  case (Cons x w)
  then have x: "\<not> lineTerminator x" and lo: "lo - 1 \<le> length w" and w: "\<forall>x\<in>set w. \<not> lineTerminator x"
    by simp_all
  from Cons.IH [OF lo w, of "x # p"] x show ?case
    by (simp add: rep_dot_step)
qed

lemma first_hit:
  assumes "\<forall>x\<in>set xs. f x = [] \<or> Q (hd (f x))" and "\<exists>x\<in>set xs. f x \<noteq> []"
  shows "concat (map f xs) \<noteq> [] \<and> Q (hd (concat (map f xs)))"
  using assms
proof (induction xs)
  case Nil
  then show ?case
    by simp
next
  case (Cons x xs)
  show ?case
  proof (cases "f x = []")
    case True
    with Cons show ?thesis
      by simp
  next
    case False
    with Cons.prems(1) show ?thesis
      by simp
  qed
qed

subsection \<open>The match of a span\<close>

lemma rep_dot_invariant:
  assumes "\<And>x q. G (x # q) \<Longrightarrow> \<not> lineTerminator x \<Longrightarrow> G q"
  shows "G q \<Longrightarrow> st \<in> set (rep True (step True notLT) lo None (p, q, c)) \<Longrightarrow>
     G (fst (snd st)) \<and> snd (snd st) = c"
proof (induction q arbitrary: lo p)
  case Nil
  then show ?case
    by (auto simp add: rep_dot_stop split: if_splits)
next
  case (Cons x q)
  show ?case
  proof (cases "lineTerminator x")
    case True
    with Cons.prems show ?thesis
      by (auto simp add: rep_dot_stop split: if_splits)
  next
    case False
    from Cons.prems(2) False
    have "st \<in> set (rep True (step True notLT) (lo - 1) None (x # p, q, c)) \<or> st = (p, x # q, c)"
      by (auto simp add: rep_dot_step split: if_splits)
    then show ?thesis
    proof
      assume "st \<in> set (rep True (step True notLT) (lo - 1) None (x # p, q, c))"
      with Cons.IH [OF assms [OF Cons.prems(1) False]] show ?thesis
        by blast
    next
      assume "st = (p, x # q, c)"
      with Cons.prems(1) show ?thesis
        by simp
    qed
  qed
qed

lemma mt_Seq_fwd: "mt ml (Seq r1 r2) True st = concat (map (mt ml r2 True) (mt ml r1 True st))"
  by simp

lemma mt_linkTail:
  "mt True linkTail True (p, CHR '']'' # CHR ''('' # q2, c) =
     concat (map closeParen (rep True (step True notLT) 1 None (CHR ''('' # CHR '']'' # p, q2, c)))"
  by simp

lemma mt_linkTail_none:
  assumes "\<nexists>q2. q = CHR '']'' # CHR ''('' # q2"
  shows "mt True linkTail True (p, q, c) = []"
proof (cases q)
  case Nil
  then show ?thesis
    by simp
next
  case q: (Cons x q1)
  show ?thesis
  proof (cases "x = CHR '']''")
    case False
    with q show ?thesis
      by simp
  next
    case True
    show ?thesis
    proof (cases q1)
      case Nil
      with q True show ?thesis
        by simp
    next
      case (Cons y q2)
      with assms q True have "y \<noteq> CHR ''(''"
        by simp
      with q True Cons show ?thesis
        by simp
    qed
  qed
qed

lemma mt_maskedLink:
  "mt True maskedLinkRegex True (pre, CHR ''['' # r, c) =
     concat (map (mt True linkTail True) (rep True (step True notLT) 1 None (CHR ''['' # pre, r, c)))"
proof -
  have first: "mt True (Chr (CHR ''['')) True (pre, CHR ''['' # r, c) = [(CHR ''['' # pre, r, c)]"
    by simp
  have dots: "mt True (Plus Dot) True st = rep True (step True notLT) 1 None st" for st
    by simp
  show ?thesis
    by (simp only: maskedLinkRegex_def mt_Seq_fwd first dots list.map concat.simps append_Nil2)
qed

lemma matchAt_maskedLink_span:
  assumes label: "label \<noteq> []" and url: "url \<noteq> []"
    and line: "\<forall>x\<in>set (label @ url). \<not> lineTerminator x"
    and s: "CHR '')'' \<notin> set (takeWhile notLT s)"
  shows "\<exists>pre'. matchAt True maskedLinkRegex pre
     (CHR ''['' # label @ CHR '']'' # CHR ''('' # url @ CHR '')'' # s) = Some (pre', s, [])"
proof -
  define G where "G = (\<lambda>q. (\<exists>m. q = m @ CHR '')'' # s \<and> (\<forall>x\<in>set m. \<not> lineTerminator x))
     \<or> CHR '')'' \<notin> set (takeWhile notLT q))"
  define r where "r = label @ CHR '']'' # CHR ''('' # url @ CHR '')'' # s"
  define states where "states = rep True (step True notLT) 1 None (CHR ''['' # pre, r, [])"
  define Q where "Q = (\<lambda>h :: mstate. fst (snd h) = s \<and> snd (snd h) = [])"
  have step: "G q" if "G (x # q)" and "\<not> lineTerminator x" for x q
  proof -
    from that(1) consider m where "x # q = m @ CHR '')'' # s" "\<forall>x\<in>set m. \<not> lineTerminator x"
      | "CHR '')'' \<notin> set (takeWhile notLT (x # q))"
      unfolding G_def by blast
    then show ?thesis
    proof cases
      case 1
      show ?thesis
      proof (cases m)
        case Nil
        with 1 s show ?thesis
          by (simp add: G_def)
      next
        case (Cons y m')
        with 1 have "q = m' @ CHR '')'' # s" "\<forall>x\<in>set m'. \<not> lineTerminator x"
          by simp_all
        then show ?thesis
          unfolding G_def by blast
      qed
    next
      case 2
      with that(2) show ?thesis
        by (simp add: G_def)
    qed
  qed
  have "r = (label @ CHR '']'' # CHR ''('' # url) @ CHR '')'' # s"
    by (simp add: r_def)
  moreover have "\<forall>x\<in>set (label @ CHR '']'' # CHR ''('' # url). \<not> lineTerminator x"
    using line by auto
  ultimately have "G r"
    unfolding G_def by blast
  have each: "mt True linkTail True st = [] \<or> Q (hd (mt True linkTail True st))" if "st \<in> set states" for st
  proof -
    obtain p q c where st: "st = (p, q, c)"
      by (cases st)
    from rep_dot_invariant [of G, OF step \<open>G r\<close> that [unfolded states_def]] st
    have q: "G q" and c: "c = []"
      by simp_all
    show ?thesis
    proof (cases "\<exists>q2. q = CHR '']'' # CHR ''('' # q2")
      case False
      from mt_linkTail_none [OF this] show ?thesis
        unfolding st by simp
    next
      case True
      then obtain q2 where q2: "q = CHR '']'' # CHR ''('' # q2"
        by blast
      have "G (CHR ''('' # q2)"
        using step [of "CHR '']''" "CHR ''('' # q2"] q q2 by simp
      then have "G q2"
        using step [of "CHR ''(''" q2] by simp
      then consider m where "q2 = m @ CHR '')'' # s" "\<forall>x\<in>set m. \<not> lineTerminator x"
        | "CHR '')'' \<notin> set (takeWhile notLT q2)"
        unfolding G_def by blast
      then show ?thesis
      proof cases
        case 2
        from no_close [OF this] show ?thesis
          unfolding st q2 mt_linkTail by simp
      next
        case 1
        show ?thesis
        proof (cases "m = []")
          case True
          have "rep True (step True notLT) 1 None (CHR ''('' # CHR '']'' # p, CHR '')'' # s, c)
              = rep True (step True notLT) 0 None (CHR '')'' # CHR ''('' # CHR '']'' # p, s, c)"
            by (simp add: rep_dot_step)
          with 1 True no_close [OF s] show ?thesis
            unfolding st q2 mt_linkTail by simp
        next
          case False
          then have "1 \<le> length m"
            by (cases m) simp_all
          from last_close [OF this 1(2) s, of "CHR ''('' # CHR '']'' # p" c] obtain others where
            "concat (map closeParen (rep True (step True notLT) 1 None (CHR ''('' # CHR '']'' # p, q2, c)))
               = (CHR '')'' # rev m @ CHR ''('' # CHR '']'' # p, s, c) # others"
            unfolding 1(1) by blast
          then show ?thesis
            unfolding st q2 mt_linkTail Q_def c by simp
        qed
      qed
    qed
  qed
  have "1 \<le> length label"
    using label by (cases label) simp_all
  moreover have "\<forall>x\<in>set label. \<not> lineTerminator x"
    using line by simp
  ultimately have mem: "(rev label @ CHR ''['' # pre, CHR '']'' # CHR ''('' # url @ CHR '')'' # s, []) \<in> set states"
    unfolding states_def r_def by (rule rep_dot_member)
  have "1 \<le> length url"
    using url by (cases url) simp_all
  moreover have "\<forall>x\<in>set url. \<not> lineTerminator x"
    using line by simp
  ultimately obtain others where
    "concat (map closeParen (rep True (step True notLT) 1 None
        (CHR ''('' # CHR '']'' # rev label @ CHR ''['' # pre, url @ CHR '')'' # s, [])))
      = (CHR '')'' # rev url @ CHR ''('' # CHR '']'' # rev label @ CHR ''['' # pre, s, []) # others"
    using last_close [OF _ _ s] by blast
  then have "mt True linkTail True (rev label @ CHR ''['' # pre, CHR '']'' # CHR ''('' # url @ CHR '')'' # s, []) \<noteq> []"
    unfolding mt_linkTail by simp
  with mem have "\<exists>st\<in>set states. mt True linkTail True st \<noteq> []"
    by blast
  moreover have "\<forall>st\<in>set states. mt True linkTail True st = [] \<or> Q (hd (mt True linkTail True st))"
    using each by blast
  ultimately have "concat (map (mt True linkTail True) states) \<noteq> []
      \<and> Q (hd (concat (map (mt True linkTail True) states)))"
    by (intro first_hit)
  then obtain h others where h: "concat (map (mt True linkTail True) states) = h # others" and "Q h"
    by (cases "concat (map (mt True linkTail True) states)") auto
  then obtain pre' where "h = (pre', s, [])"
    unfolding Q_def by (cases h) auto
  with h have "matchAt True maskedLinkRegex pre (CHR ''['' # r) = Some (pre', s, [])"
    unfolding matchAt_def mt_maskedLink states_def [symmetric] by simp
  then show ?thesis
    unfolding r_def by blast
qed

subsection \<open>The text before a position does not matter\<close>

lemma rep_dot_shift:
  "rep True (step True notLT) lo None (p @ pre, q, c) =
     map (shift pre) (rep True (step True notLT) lo None (p, q, c))"
proof (induction q arbitrary: lo p)
  case Nil
  show ?case
    by (simp add: rep_dot_stop)
next
  case (Cons x q)
  show ?case
  proof (cases "lineTerminator x")
    case True
    then show ?thesis
      by (simp add: rep_dot_stop)
  next
    case False
    with Cons [of "lo - 1" "x # p"] show ?thesis
      by (simp add: rep_dot_step)
  qed
qed

lemma closeParen_shift: "closeParen (shift pre st) = map (shift pre) (closeParen st)"
proof -
  obtain p q c where st: "st = (p, q, c)"
    by (cases st)
  show ?thesis
    unfolding st by (cases q) simp_all
qed

lemma concat_map_shift:
  assumes "\<And>st. f (shift pre st) = map (shift pre) (f st)"
  shows "concat (map f (map (shift pre) xs)) = map (shift pre) (concat (map f xs))"
proof (induction xs)
  case Nil
  show ?case
    by simp
next
  case (Cons a xs)
  with assms [of a] show ?case
    by simp
qed

lemma mt_linkTail_shift:
  "mt True linkTail True (shift pre st) = map (shift pre) (mt True linkTail True st)"
proof -
  obtain p q c where st: "st = (p, q, c)"
    by (cases st)
  show ?thesis
  proof (cases "\<exists>q2. q = CHR '']'' # CHR ''('' # q2")
    case False
    have e: "shift pre st = (p @ pre, q, c)"
      unfolding st by simp
    show ?thesis
      unfolding e unfolding st mt_linkTail_none [OF False] by simp
  next
    case True
    then obtain q2 where q: "q = CHR '']'' # CHR ''('' # q2"
      by blast
    have "mt True linkTail True (p @ pre, q, c) =
        concat (map closeParen (map (shift pre) (rep True (step True notLT) 1 None (CHR ''('' # CHR '']'' # p, q2, c))))"
      unfolding q mt_linkTail using rep_dot_shift [of 1 "CHR ''('' # CHR '']'' # p" pre q2 c] by simp
    also have "\<dots> = map (shift pre) (mt True linkTail True (p, q, c))"
      unfolding q mt_linkTail by (rule concat_map_shift) (rule closeParen_shift)
    finally show ?thesis
      unfolding st by simp
  qed
qed

lemma matchAt_maskedLink_other:
  assumes "\<nexists>r. rest = CHR ''['' # r"
  shows "matchAt True maskedLinkRegex pre rest = None"
proof -
  have "mt True (Chr (CHR ''['')) True (pre, rest, []) = []"
    using assms by (cases rest) simp_all
  then have "mt True maskedLinkRegex True (pre, rest, []) = []"
    by (simp only: maskedLinkRegex_def mt_Seq_fwd list.map concat.simps)
  then show ?thesis
    by (simp add: matchAt_def)
qed

lemma matchAt_maskedLink_shift:
  "matchAt True maskedLinkRegex pre rest = map_option (shift pre) (matchAt True maskedLinkRegex [] rest)"
proof (cases "\<exists>r. rest = CHR ''['' # r")
  case False
  then show ?thesis
    by (simp add: matchAt_maskedLink_other)
next
  case True
  then obtain r where rest: "rest = CHR ''['' # r"
    by blast
  have "mt True maskedLinkRegex True (pre, rest, []) =
      concat (map (mt True linkTail True) (map (shift pre) (rep True (step True notLT) 1 None ([CHR ''[''], r, []))))"
    unfolding rest mt_maskedLink using rep_dot_shift [of 1 "[CHR ''['']" pre r "[]"] by simp
  also have "\<dots> = map (shift pre) (mt True maskedLinkRegex True ([], rest, []))"
    unfolding rest mt_maskedLink by (rule concat_map_shift) (rule mt_linkTail_shift)
  finally show ?thesis
    unfolding matchAt_def by (cases "mt True maskedLinkRegex True ([], rest, [])") simp_all
qed

lemma replaceFrom_pre:
  assumes "\<And>pre rest. matchAt ml r pre rest = map_option (shift pre) (matchAt ml r [] rest)"
  shows "replaceFrom ml r f u pre rest = replaceFrom ml r f u [] rest"
proof (induction rest arbitrary: pre u rule: length_induct)
  case (1 rest)
  have IH: "replaceFrom ml r f v p q = replaceFrom ml r f v [] q" if "length q < length rest" for v p q
    using 1 that by blast
  show ?case
  proof (cases "matchAt ml r [] rest")
    case None
    then have n: "matchAt ml r pre rest = None"
      by (subst assms) simp
    show ?thesis
    proof (cases rest)
      case Nil
      with None n show ?thesis
        by (simp add: replaceFrom_Nil)
    next
      case (Cons x xs)
      with None n IH [of xs u "x # pre"] IH [of xs u "[x]"] show ?thesis
        by (simp add: replaceFrom_miss)
    qed
  next
    case (Some st)
    obtain p' rest' c where st: "st = (p', rest', c)"
      by (cases st)
    have m0: "matchAt ml r [] rest = Some (p', rest', c)"
      using Some st by simp
    have m: "matchAt ml r pre rest = Some (p' @ pre, rest', c)"
      by (subst assms) (simp add: m0)
    show ?thesis
    proof (cases "length rest' < length rest")
      case True
      with IH [of rest' _ "p' @ pre"] IH [of rest' _ p'] show ?thesis
        by (simp add: replaceFrom_hit [OF m True] replaceFrom_hit [OF m0 True])
    next
      case False
      show ?thesis
      proof (cases rest)
        case Nil
        with m m0 show ?thesis
          by (subst (1 2) replaceFrom.simps) simp
      next
        case (Cons x xs)
        with m m0 False IH [of xs _ "x # pre"] IH [of xs _ "[x]"] show ?thesis
          by (subst (1 2) replaceFrom.simps) (simp add: case_prod_unfold)
      qed
    qed
  qed
qed

lemma replaceFrom_maskedLink_copy:
  assumes "CHR ''['' \<notin> set p"
  shows "replaceFrom True maskedLinkRegex f u pre (p @ q) = p @ replaceFrom True maskedLinkRegex f u (rev p @ pre) q"
  using assms
proof (induction p arbitrary: pre)
  case Nil
  show ?case
    by simp
next
  case (Cons x p)
  then have "matchAt True maskedLinkRegex pre (x # p @ q) = None"
    by (intro matchAt_maskedLink_other) auto
  with Cons show ?case
    by (simp add: replaceFrom_miss)
qed


subsection \<open>Claim C9\<close>




section \<open>No rewrite shortens the text\<close>

lemma length_replaceAll:
  "length pat \<le> length sub \<Longrightarrow> length t \<le> length (replaceAll pat sub t)"
proof (induction pat sub t rule: replaceAll.induct)
  case (1 pat sub t)
  show ?case
  proof (cases "pat \<noteq> [] \<and> take (length pat) t = pat")
    case True
    then have t: "t = pat @ drop (length pat) t"
      by (metis append_take_drop_id)
    have "length t = length pat + length (drop (length pat) t)"
      by (subst t) (simp only: length_append)
    moreover have "length (drop (length pat) t) \<le> length (replaceAll pat sub (drop (length pat) t))"
      using "1.IH"(1) [OF True] "1.prems" by simp
    moreover have "replaceAll pat sub t = sub @ replaceAll pat sub (drop (length pat) t)"
      using True by (subst replaceAll.simps) simp
    ultimately show ?thesis
      using "1.prems" by simp
  next
    case False
    show ?thesis
    proof (cases t)
      case Nil
      then show ?thesis
        by simp
    next
      case (Cons x xs)
      have "replaceAll pat sub t = x # replaceAll pat sub xs"
        using False Cons by (subst replaceAll.simps) auto
      then show ?thesis
        using "1.IH"(2) [OF False Cons] "1.prems" Cons by simp
    qed
  qed
qed

lemma length_replaceFrom:
  assumes "\<And>s pre rest pre' rest' c. matchAt ml r pre rest = Some (pre', rest', c) \<Longrightarrow>
             length rest' < length rest \<Longrightarrow>
             length rest - length rest' \<le> length (fst (f s (take (length rest - length rest') rest) c))"
  shows "length rest \<le> length (replaceFrom ml r f s pre rest)"
proof (induction rest arbitrary: s pre rule: length_induct)
  case (1 rest)
  show ?case
  proof (cases "matchAt ml r pre rest")
    case None
    show ?thesis
    proof (cases rest)
      case Nil
      then show ?thesis
        by simp
    next
      case (Cons x xs)
      then show ?thesis
        using None 1 [rule_format, of xs s "x # pre"] by (simp add: replaceFrom_miss)
    qed
  next
    case (Some st)
    obtain pre' rest' c where st: "st = (pre', rest', c)"
      by (cases st)
    show ?thesis
    proof (cases "length rest' < length rest")
      case True
      define out where "out = f s (take (length rest - length rest') rest) c"
      have "replaceFrom ml r f s pre rest = fst out @ replaceFrom ml r f (snd out) pre' rest'"
        unfolding out_def using Some st True by (simp add: replaceFrom_hit)
      moreover have "length rest - length rest' \<le> length (fst out)"
        unfolding out_def using Some st True by (intro assms) simp_all
      moreover have "length rest' \<le> length (replaceFrom ml r f (snd out) pre' rest')"
        using 1 True by simp
      ultimately show ?thesis
        by simp
    next
      case False
      show ?thesis
      proof (cases rest)
        case Nil
        then show ?thesis
          by simp
      next
        case (Cons x xs)
        have "replaceFrom ml r f s pre rest
            = fst (f s [] c) @ x # replaceFrom ml r f (snd (f s [] c)) (x # pre) xs"
          using Some st False Cons by (subst replaceFrom.simps) (simp add: case_prod_unfold)
        moreover have "length xs \<le> length (replaceFrom ml r f (snd (f s [] c)) (x # pre) xs)"
          using 1 Cons by simp
        ultimately show ?thesis
          using Cons by simp
      qed
    qed
  qed
qed

lemma length_lineScan:
  assumes "\<And>rest out rest'. h rest = Some (out, rest') \<Longrightarrow> length rest \<le> length out + length rest'"
  shows "length rest \<le> length (lineScan h bol rest)"
proof (induction rest arbitrary: bol rule: length_induct)
  case (1 rest)
  show ?case
  proof (cases "\<exists>out rest'. (if bol then h rest else None) = Some (out, rest') \<and> length rest' < length rest")
    case True
    then obtain out rest' where h: "h rest = Some (out, rest')" and l: "length rest' < length rest"
      and bol: bol
      by (auto split: if_splits)
    have "lineScan h True rest = out @ lineScan h False rest'"
      using h l by (rule lineScan_hit)
    moreover have "length rest' \<le> length (lineScan h False rest')"
      using 1 l by simp
    ultimately show ?thesis
      using assms [OF h] bol by simp
  next
    case False
    show ?thesis
    proof (cases rest)
      case Nil
      then show ?thesis
        by simp
    next
      case (Cons x xs)
      have "lineScan h bol rest = x # lineScan h (lineTerminator x) xs"
        using False Cons by (subst lineScan.simps) (auto split: option.split)
      moreover have "length xs \<le> length (lineScan h (lineTerminator x) xs)"
        using 1 Cons by simp
      ultimately show ?thesis
        using Cons by simp
    qed
  qed
qed

lemma length_boldScan: "length t \<le> length (boldScan a i t)"
proof (induction a i t rule: boldScan.induct)
  case (1 a i x y z r)
  show ?case
  proof (cases "x = a \<and> y = a")
    case True
    show ?thesis
    proof (cases "z = a")
      case True
      with \<open>x = a \<and> y = a\<close> "1.IH"(1) show ?thesis
        by simp
    next
      case False
      with \<open>x = a \<and> y = a\<close> "1.IH"(2) show ?thesis
        by simp
    qed
  next
    case False
    with "1.IH"(3) show ?thesis
      by auto
  qed
qed simp_all

lemma length_italicScan: "length t \<le> length (italicScan a i prev t)"
proof (induction t arbitrary: i prev rule: length_induct)
  case (1 t)
  have IH: "length u \<le> length (italicScan a j p u)" if "length u < length t" for u j p
    using 1 that by simp
  show ?case
  proof (cases t)
    case Nil
    then show ?thesis
      by simp
  next
    case t: (Cons x xs)
    have copy: "length t \<le> length (x # italicScan a i (Some x) xs)"
      using IH [of xs i "Some x"] t by simp
    show ?thesis
    proof (cases "x = a \<and> prev \<noteq> Some a")
      case False
      with copy t show ?thesis
        by auto
    next
      case True
      show ?thesis
      proof (cases xs)
        case Nil
        with True t show ?thesis
          by simp
      next
        case (Cons y ys)
        show ?thesis
        proof (cases "y = a")
          case False
          with True t Cons IH [of ys i "Some y"] show ?thesis
            by simp
        next
          case ya: True
          show ?thesis
          proof (cases ys)
            case Nil
            with True t Cons ya copy show ?thesis
              by simp
          next
            case zs: (Cons z zs)
            show ?thesis
            proof (cases "z = a")
              case True
              with \<open>x = a \<and> prev \<noteq> Some a\<close> t Cons ya zs IH [of zs "i + 1" "Some a"] show ?thesis
                by simp
            next
              case False
              with True t Cons ya zs copy show ?thesis
                by simp
            qed
          qed
        qed
      qed
    qed
  qed
qed

lemma length_join:
  "length sep \<le> length sep' \<Longrightarrow> list_all2 (\<lambda>x y. length x \<le> length y) xs ys \<Longrightarrow>
   length (join sep xs) \<le> length (join sep' ys)"
proof (induction xs arbitrary: ys)
  case Nil
  then show ?case
    by simp
next
  case (Cons x xs)
  then obtain y ys' where ys: "ys = y # ys'" and xy: "length x \<le> length y"
    and rest: "list_all2 (\<lambda>x y. length x \<le> length y) xs ys'"
    by (auto simp add: list_all2_Cons1)
  show ?case
  proof (cases xs)
    case Nil
    with rest ys xy show ?thesis
      by simp
  next
    case c: (Cons x2 xs2)
    then have "ys' \<noteq> []"
      using rest by auto
    with c Cons.IH [OF Cons.prems(1) rest] xy Cons.prems(1) ys show ?thesis
      by (simp add: join_Cons)
  qed
qed

lemma length_escapers:
  "length t \<le> length (escapeEscape t)"
  "length t \<le> length (escapeInlineCode t)"
  "length t \<le> length (escapeCodeBlock t)"
  "length t \<le> length (escapeItalic t)"
  "length t \<le> length (escapeBold t)"
  "length t \<le> length (escapeUnderline t)"
  "length t \<le> length (escapeStrikethrough t)"
  "length t \<le> length (escapeSpoiler t)"
  "length t \<le> length (escapeHeading t)"
  "length t \<le> length (escapeBulletedList t)"
  "length t \<le> length (escapeNumberedList t)"
  "length t \<le> length (escapeMaskedLink t)"
proof -
  show "length t \<le> length (escapeEscape t)"
    unfolding escapeEscape_def by (rule length_replaceAll) simp
  show "length t \<le> length (escapeCodeBlock t)"
    unfolding escapeCodeBlock_def by (rule length_replaceAll) simp
  show "length t \<le> length (escapeStrikethrough t)"
    unfolding escapeStrikethrough_def by (rule length_replaceAll) simp
  show "length t \<le> length (escapeSpoiler t)"
    unfolding escapeSpoiler_def by (rule length_replaceAll) simp
  show "length t \<le> length (escapeInlineCode t)"
    unfolding escapeInlineCode_def replace_def
  proof (rule length_replaceFrom)
    fix s :: unit and pre rest pre' rest' c
    assume "matchAt False inlineCodeRegex pre rest = Some (pre', rest', c)"
    from matchAt_inlineCode_shape [OF this]
    show "length rest - length rest'
        \<le> length (fst (if length (take (length rest - length rest') rest) = 2
                         then BS # ''`'' @ BS # ''`'' else BS # ''`'', s))"
      by auto
  qed
  have "length t \<le> length (italicScan (CHR ''*'') 0 None t)"
    by (rule length_italicScan)
  also have "\<dots> \<le> length (italicScan (CHR ''_'') 0 None (italicScan (CHR ''*'') 0 None t))"
    by (rule length_italicScan)
  finally show "length t \<le> length (escapeItalic t)"
    by (simp add: escapeItalic_def replace_def replaceFrom_italic)
  show "length t \<le> length (escapeBold t)"
    by (simp add: escapeBold_def replace_def replaceFrom_bold length_boldScan)
  show "length t \<le> length (escapeUnderline t)"
    by (simp add: escapeUnderline_def replace_def replaceFrom_bold length_boldScan)
  show "length t \<le> length (escapeHeading t)"
    unfolding escapeHeading_scan
    by (rule length_lineScan) (use headingHead_shape in fastforce)
  show "length t \<le> length (escapeBulletedList t)"
    unfolding escapeBulletedList_scan
  proof (rule length_lineScan)
    fix rest out rest'
    assume "bulletHead rest = Some (out, rest')"
    from bulletHead_shape [OF this] obtain u x v
      where "rest = u @ x # v @ rest'" and "out = u @ BS # CHR ''-'' # v"
      by blast
    then show "length rest \<le> length out + length rest'"
      by simp
  qed
  show "length t \<le> length (escapeNumberedList t)"
    unfolding escapeNumberedList_scan
    by (rule length_lineScan) (use numberHead_shape in fastforce)
  show "length t \<le> length (escapeMaskedLink t)"
    unfolding escapeMaskedLink_def replaceTemplate_def replace_def
    by (rule length_replaceFrom) (simp add: maskedLinkRegex_def getSubstitution_templates)
qed

lemma length_applyIf:
  assumes "\<And>t. length t \<le> length (f t)" and "length t \<le> length u"
  shows "length t \<le> length (applyIf flag f u)"
  using assms(1) [of u] assms(2) by (simp add: applyIf_def)

lemma length_escapeMarkdown: "length t \<le> length (escapeMarkdown t opts)"
proof (rule escapeMarkdown_branches [where C = "\<lambda>opts. True" and R = "\<lambda>x y. length x \<le> length y"])
  fix t and opts :: escapeMarkdownOptions
  assume content: "codeBlockContent opts" "inlineCodeContent opts"
  show "length t \<le> length (escapeMarkdown t opts)"
    unfolding escapeMarkdown_sequence [OF content]
    by (intro length_applyIf length_escapers order_refl)
next
  fix sep sep' :: string and xs ys :: "string list"
  assume "length sep \<le> length sep'" and "list_all2 (\<lambda>x y. length x \<le> length y) xs ys"
  then show "length (join sep xs) \<le> length (join sep' ys)"
    by (rule length_join)
qed simp_all

text \<open>
  Claim C10, as stated, ends with "no rewrite ever deletes characters". That part fails
  for the bulleted-list escaper: its replacement \<^verbatim>\<open>$1\-$2\<close> writes a backslash and a hyphen
  for the list marker, whichever of \<^verbatim>\<open>*\<close> and \<^verbatim>\<open>-\<close> was matched. For the text \<^verbatim>\<open>* a\<close> the result
  is \<^verbatim>\<open>\- a\<close>: the asterisk of the input is gone, and the same happens through
  \<^verbatim>\<open>escapeMarkdown\<close> with the bulleted list enabled alone.
\<close>

theorem escapeBulletedList_drops_asterisk:
  "escapeBulletedList ''* a'' = BS # ''- a'' \<and>
   CHR ''*'' \<in> set ''* a'' \<and>
   CHR ''*'' \<notin> set (escapeBulletedList ''* a'') \<and>
   escapeMarkdown ''* a'' (noConstruct\<lparr>bulletedList := True\<rparr>) = BS # ''- a''"
proof -
  have "escapeBulletedList ''* a'' = BS # ''- a''"
    by code_simp
  then show ?thesis
    by (simp add: escapeMarkdown_single)
qed

text \<open>
  Claim C10, amended to the length bound: for every text and every options, the result of
  \<^verbatim>\<open>escapeMarkdown\<close> is at least as long as the text, and so is the result of each of the
  twelve escapers applied on its own.
\<close>

theorem escape_length_monotone:
  "length t \<le> length (escapeMarkdown t opts) \<and>
   length t \<le> length (escapeCodeBlock t) \<and>
   length t \<le> length (escapeInlineCode t) \<and>
   length t \<le> length (escapeItalic t) \<and>
   length t \<le> length (escapeBold t) \<and>
   length t \<le> length (escapeUnderline t) \<and>
   length t \<le> length (escapeStrikethrough t) \<and>
   length t \<le> length (escapeSpoiler t) \<and>
   length t \<le> length (escapeEscape t) \<and>
   length t \<le> length (escapeHeading t) \<and>
   length t \<le> length (escapeBulletedList t) \<and>
   length t \<le> length (escapeNumberedList t) \<and>
   length t \<le> length (escapeMaskedLink t)"
  by (intro conjI length_escapeMarkdown length_escapers)

end
